theory Spec2Isabelle
  imports Main "HOL-Library.Word" "HOL-Library.Monad_Syntax" "HOL-Library.Multiset"
begin

unbundle bit_operations_syntax

section \<open>The SLAB allocator of src/main.cpp\<close>

text \<open>
  The program is modelled for an LP64 target: \<open>size_t\<close> and \<open>uintptr_t\<close> are 64-bit
  words, \<open>uint32_t\<close> is a 32-bit word, a pointer is its address (\<open>nullptr\<close> is 0) and
  \<open>sizeof(slabStruct)\<close> is 24 (two pointers, a 32-bit counter, padding to 8).

  Only the header at the start of each region obtained from the page primitive is ever
  read or written by the allocator, so the store maps the base address of every region
  currently held to the header stored there. Reading or writing through a pointer that is
  not the base of a held region (a null pointer, a released region) is undefined behaviour
  in C++; the model returns \<open>None\<close> there.

  \<open>slab_order\<close> is an \<open>int\<close> in the source; it only ever holds the result of
  \<open>smallest_power_of_two\<close>, a count of at most 64 shifts, and is a natural number here.
\<close>

type_synonym addr = "64 word"

record slabStruct =
  previous :: addr
  "next" :: addr
  refcnt :: "32 word"

record cache =
  complete_slab :: addr
  partially_slab :: addr
  empty_slab :: addr
  object_size :: "64 word"
  slab_order :: nat
  slab_objects :: "64 word"

text \<open>
  The cache structure together with the memory it manages: \<open>heap\<close> holds the headers of the
  regions held, \<open>acquires\<close> and \<open>releases\<close> count the successful calls of \<open>alloc_slab\<close> and
  the calls of \<open>free_slab\<close> on a held region.
\<close>

record world = cache +
  heap :: "addr \<rightharpoonup> slabStruct"
  acquires :: nat
  releases :: nat

definition sizeof_slabStruct :: "64 word" where
  "sizeof_slabStruct = 24"

subsection \<open>The page primitive\<close>

text \<open>
  \<open>alloc_slab\<close> is external (\<open>aligned_alloc\<close>): what it returns is a parameter of the model,
  the address (0 when the request is refused) and the uninitialised contents of the
  header found there. That the address is fresh and aligned on \<open>4096 * 2 ^ order\<close> is a
  hypothesis on this parameter (\<open>valid_reply\<close> below). \<open>free_slab\<close> is \<open>free\<close>: a no-op on
  the null pointer, undefined on a region that is not held.
\<close>

definition alloc_slab :: "addr \<times> slabStruct \<Rightarrow> nat \<Rightarrow> world \<Rightarrow> addr \<times> world" where
  "alloc_slab reply order s =
     (if fst reply = 0 then (0, s)
      else (fst reply, s\<lparr>heap := (heap s)(fst reply \<mapsto> snd reply), acquires := acquires s + 1\<rparr>))"

definition free_slab :: "addr \<Rightarrow> world \<Rightarrow> world option" where
  "free_slab slab s =
     (if slab = 0 then Some s
      else if heap s slab = None then None
      else Some (s\<lparr>heap := (heap s)(slab := None), releases := releases s + 1\<rparr>))"

subsection \<open>Access to a slab header\<close>

definition set_previous :: "addr \<Rightarrow> addr \<Rightarrow> world \<Rightarrow> world option" where
  "set_previous p v s =
     (case heap s p of None \<Rightarrow> None
      | Some sl \<Rightarrow> Some (s\<lparr>heap := (heap s)(p \<mapsto> sl\<lparr>previous := v\<rparr>)\<rparr>))"

definition set_next :: "addr \<Rightarrow> addr \<Rightarrow> world \<Rightarrow> world option" where
  "set_next p v s =
     (case heap s p of None \<Rightarrow> None
      | Some sl \<Rightarrow> Some (s\<lparr>heap := (heap s)(p \<mapsto> sl\<lparr>next := v\<rparr>)\<rparr>))"

definition set_refcnt :: "addr \<Rightarrow> 32 word \<Rightarrow> world \<Rightarrow> world option" where
  "set_refcnt p v s =
     (case heap s p of None \<Rightarrow> None
      | Some sl \<Rightarrow> Some (s\<lparr>heap := (heap s)(p \<mapsto> sl\<lparr>refcnt := v\<rparr>)\<rparr>))"

subsection \<open>Geometry\<close>

function smallest_power_of_two_loop :: "64 word \<Rightarrow> nat \<Rightarrow> nat" where
  "smallest_power_of_two_loop n pow =
     (if n > 0 then smallest_power_of_two_loop (drop_bit 1 n) (pow + 1) else pow)"
  by pat_completeness auto
termination
proof (relation "measure (\<lambda>(n, pow). unat n)")
  show "wf (measure (\<lambda>(n :: 64 word, pow :: nat). unat n))"
    by simp
next
  fix n :: "64 word" and pow :: nat
  assume "0 < n"
  then have "0 < unat n"
    by (simp add: word_less_nat_alt)
  moreover have "unat (drop_bit 1 n) = unat n div 2"
    using unat_drop_bit_eq [of 1 n] by (simp add: drop_bit_eq_div)
  ultimately have "unat (drop_bit 1 n) < unat n"
    by simp
  then show "((drop_bit 1 n, pow + 1), (n, pow)) \<in> measure (\<lambda>(n, pow). unat n)"
    unfolding in_measure by (simp only: prod.case)
qed

declare smallest_power_of_two_loop.simps [simp del]

text \<open>
  \<open>smallest_power_of_two\<close> counts the right shifts that take \<open>n\<close> to 0. The left shift in
  \<open>calculate_slab_start\<close> is defined in C++ only for fewer than 64 bits (\<open>push_bit\<close> gives 0
  beyond); \<open>slab_order + 12\<close> is at most 22 in every state the claims are about.
\<close>

definition smallest_power_of_two :: "64 word \<Rightarrow> nat" where
  "smallest_power_of_two n = smallest_power_of_two_loop n 0"

definition calculate_slab_start :: "'a cache_scheme \<Rightarrow> addr \<Rightarrow> addr" where
  "calculate_slab_start c allocation =
     (let mask = NOT (push_bit (slab_order c + 12) 1 - 1) in allocation AND mask)"

subsection \<open>List primitives\<close>

function free_list :: "addr \<Rightarrow> world \<Rightarrow> world option" where
  "free_list current s =
     (if current \<noteq> 0 then
        (case heap s current of None \<Rightarrow> None
         | Some sl \<Rightarrow>
            (case free_slab current s of None \<Rightarrow> None
             | Some s' \<Rightarrow> free_list (next sl) s'))
      else Some s)"
  by pat_completeness auto
termination
proof (relation "measure (\<lambda>(current, s). card (dom (heap s)))")
  show "wf (measure (\<lambda>(current :: addr, s :: world). card (dom (heap s))))"
    by simp
next
  fix current :: addr and s s' :: world and sl :: slabStruct
  assume c: "current \<noteq> 0" and h: "heap s current = Some sl"
    and f: "free_slab current s = Some s'"
  from c h f have "heap s' = (heap s)(current := None)"
    by (auto simp: free_slab_def)
  then have "dom (heap s') = dom (heap s) - {current}"
    by simp
  moreover have "current \<in> dom (heap s)"
    using h by blast
  moreover have "finite (dom (heap s))"
    by simp
  ultimately have "card (dom (heap s')) < card (dom (heap s))"
    using card_Diff1_less [of "dom (heap s)" current] by simp
  then show "((next sl, s'), (current, s)) \<in> measure (\<lambda>(current, s). card (dom (heap s)))"
    by simp
qed

declare free_list.simps [simp del]

definition remove_from_empty_list :: "addr \<Rightarrow> world \<Rightarrow> world option" where
  "remove_from_empty_list slab s = do {
     sl \<leftarrow> heap s slab;
     s \<leftarrow> (if previous sl \<noteq> 0 then set_next (previous sl) (next sl) s
           else if empty_slab s = slab then Some (s\<lparr>empty_slab := next sl\<rparr>)
           else if partially_slab s = slab then Some (s\<lparr>partially_slab := next sl\<rparr>)
           else Some s);
     sl \<leftarrow> heap s slab;
     s \<leftarrow> (if next sl \<noteq> 0 then set_previous (next sl) (previous sl) s else Some s);
     s \<leftarrow> set_previous slab 0 s;
     set_next slab 0 s
   }"

definition insert_in_complete_list :: "addr \<Rightarrow> world \<Rightarrow> world option" where
  "insert_in_complete_list slab s = do {
     s \<leftarrow> set_next slab (complete_slab s) s;
     s \<leftarrow> set_previous slab 0 s;
     s \<leftarrow> (if complete_slab s \<noteq> 0 then set_previous (complete_slab s) slab s else Some s);
     Some (s\<lparr>complete_slab := slab\<rparr>)
   }"

definition insert_in_partially_list :: "addr \<Rightarrow> world \<Rightarrow> world option" where
  "insert_in_partially_list slab s = do {
     s \<leftarrow> set_next slab (partially_slab s) s;
     s \<leftarrow> set_previous slab 0 s;
     s \<leftarrow> (if partially_slab s \<noteq> 0 then set_previous (partially_slab s) slab s else Some s);
     Some (s\<lparr>partially_slab := slab\<rparr>)
   }"

definition insert_in_empty_list :: "addr \<Rightarrow> world \<Rightarrow> world option" where
  "insert_in_empty_list slab s = do {
     s \<leftarrow> set_next slab (empty_slab s) s;
     s \<leftarrow> set_previous slab 0 s;
     s \<leftarrow> (if empty_slab s \<noteq> 0 then set_previous (empty_slab s) slab s else Some s);
     Some (s\<lparr>empty_slab := slab\<rparr>)
   }"

subsection \<open>The public operations\<close>

text \<open>
  \<open>cache_setup\<close> divides by \<open>object_size\<close> when the order is 0; a division by zero is
  undefined behaviour and gives \<open>None\<close>. The sum \<open>sizeof(slabStruct) + object_size\<close> is
  computed in \<open>size_t\<close> and wraps around.
\<close>

definition cache_setup :: "64 word \<Rightarrow> world \<Rightarrow> world option" where
  "cache_setup objsz s =
     (let s = s\<lparr>complete_slab := 0, partially_slab := 0, empty_slab := 0,
                object_size := objsz,
                slab_order := smallest_power_of_two ((sizeof_slabStruct + objsz) div 4096)\<rparr>
      in if slab_order s > 0 then Some (s\<lparr>slab_objects := 1\<rparr>)
         else if objsz = 0 then None
         else Some (s\<lparr>slab_objects := (4096 - sizeof_slabStruct) div objsz\<rparr>))"

definition cache_release :: "world \<Rightarrow> world option" where
  "cache_release s = do {
     s \<leftarrow> free_list (complete_slab s) s;
     s \<leftarrow> free_list (partially_slab s) s;
     s \<leftarrow> free_list (empty_slab s) s;
     Some (s\<lparr>complete_slab := 0, partially_slab := 0, empty_slab := 0\<rparr>)
   }"

definition cache_alloc :: "addr \<times> slabStruct \<Rightarrow> world \<Rightarrow> (addr \<times> world) option" where
  "cache_alloc reply s =
     (if partially_slab s \<noteq> 0 then do {
        let current_slab = partially_slab s;
        sl \<leftarrow> heap s (partially_slab s);
        let result = current_slab + sizeof_slabStruct + object_size s * ucast (refcnt sl);
        sl \<leftarrow> heap s current_slab;
        s \<leftarrow> set_refcnt current_slab (refcnt sl + 1) s;
        sl \<leftarrow> heap s current_slab;
        s \<leftarrow> (if ucast (refcnt sl) = slab_objects s then do {
                sl \<leftarrow> heap s current_slab;
                let s = s\<lparr>partially_slab := next sl\<rparr>;
                s \<leftarrow> (if partially_slab s \<noteq> 0 then set_previous (partially_slab s) 0 s
                      else Some s);
                insert_in_empty_list current_slab s
              } else Some s);
        Some (result, s)
      } else if complete_slab s \<noteq> 0 then do {
        let current_slab = complete_slab s;
        let result = current_slab + sizeof_slabStruct;
        sl \<leftarrow> heap s current_slab;
        s \<leftarrow> set_refcnt current_slab (refcnt sl + 1) s;
        sl \<leftarrow> heap s current_slab;
        let s = s\<lparr>complete_slab := next sl\<rparr>;
        s \<leftarrow> (if complete_slab s \<noteq> 0 then set_previous (complete_slab s) 0 s else Some s);
        sl \<leftarrow> heap s current_slab;
        s \<leftarrow> (if ucast (refcnt sl) = slab_objects s then insert_in_empty_list current_slab s
              else insert_in_partially_list current_slab s);
        Some (result, s)
      } else do {
        let (current_slab, s) = alloc_slab reply (slab_order s) s;
        let result = current_slab + sizeof_slabStruct;
        s \<leftarrow> set_refcnt current_slab 1 s;
        sl \<leftarrow> heap s current_slab;
        s \<leftarrow> (if ucast (refcnt sl) = slab_objects s then insert_in_empty_list current_slab s
              else insert_in_partially_list current_slab s);
        Some (result, s)
      })"

definition cache_free :: "addr \<Rightarrow> world \<Rightarrow> world option" where
  "cache_free ptr s = do {
     let slab = calculate_slab_start s ptr;
     sl \<leftarrow> heap s slab;
     s \<leftarrow> set_refcnt slab (refcnt sl - 1) s;
     sl \<leftarrow> heap s slab;
     if refcnt sl = 0 then do {
       s \<leftarrow> remove_from_empty_list slab s;
       insert_in_complete_list slab s
     } else Some s
   }"

definition cache_shrink :: "world \<Rightarrow> world option" where
  "cache_shrink s = do {
     s \<leftarrow> free_list (complete_slab s) s;
     Some (s\<lparr>complete_slab := 0\<rparr>)
   }"

subsection \<open>Well-formed states\<close>

text \<open>
  \<open>dll_seg h pv p xs q\<close>: starting at \<open>p\<close> and following \<open>next\<close>, the store \<open>h\<close> holds the
  slabs \<open>xs\<close> in this order and arrives at \<open>q\<close>; the \<open>previous\<close> field of the first is \<open>pv\<close>
  and that of every other slab is the slab before it. A list of the cache is such a
  segment from its head to the null pointer, whose first slab has no predecessor.
\<close>

fun dll_seg :: "(addr \<rightharpoonup> slabStruct) \<Rightarrow> addr \<Rightarrow> addr \<Rightarrow> addr list \<Rightarrow> addr \<Rightarrow> bool" where
  "dll_seg h pv p [] q = (p = q)"
| "dll_seg h pv p (x # xs) q =
     (p = x \<and> x \<noteq> 0 \<and>
      (case h x of None \<Rightarrow> False
       | Some sl \<Rightarrow> previous sl = pv \<and> dll_seg h x (next sl) xs q))"

definition dll :: "(addr \<rightharpoonup> slabStruct) \<Rightarrow> addr \<Rightarrow> addr list \<Rightarrow> bool" where
  "dll h p xs = dll_seg h 0 p xs 0"

text \<open>
  The slabs of the free, partial and full list (\<open>complete_slab\<close>, \<open>partially_slab\<close>,
  \<open>empty_slab\<close>) are \<open>fs\<close>, \<open>ps\<close> and \<open>us\<close>: three well-formed chains without a common slab
  that together hold every region held.
\<close>

definition lists_wf :: "world \<Rightarrow> addr list \<Rightarrow> addr list \<Rightarrow> addr list \<Rightarrow> bool" where
  "lists_wf s fs ps us \<longleftrightarrow>
     dll (heap s) (complete_slab s) fs \<and> dll (heap s) (partially_slab s) ps \<and>
     dll (heap s) (empty_slab s) us \<and> distinct (fs @ ps @ us) \<and>
     dom (heap s) = set (fs @ ps @ us)"

definition in_use :: "world \<Rightarrow> addr \<Rightarrow> nat" where
  "in_use s a = (case heap s a of None \<Rightarrow> 0 | Some sl \<Rightarrow> unat (refcnt sl))"

definition occupancy_ok :: "world \<Rightarrow> addr list \<Rightarrow> addr list \<Rightarrow> addr list \<Rightarrow> bool" where
  "occupancy_ok s fs ps us \<longleftrightarrow>
     (\<forall>a \<in> set fs. in_use s a = 0) \<and>
     (\<forall>a \<in> set ps. 0 < in_use s a \<and> in_use s a < unat (slab_objects s)) \<and>
     (\<forall>a \<in> set us. 0 < in_use s a \<and> in_use s a \<le> unat (slab_objects s))"

definition geometry_ok :: "world \<Rightarrow> bool" where
  "geometry_ok s \<longleftrightarrow>
     slab_order s \<le> 10 \<and> 0 < unat (object_size s) \<and> 0 < unat (slab_objects s) \<and>
     24 + unat (slab_objects s) * unat (object_size s) \<le> 4096 * 2 ^ slab_order s"

definition base_aligned :: "world \<Rightarrow> addr \<Rightarrow> bool" where
  "base_aligned s a \<longleftrightarrow> a AND (push_bit (slab_order s + 12) 1 - 1) = 0"

definition slot :: "world \<Rightarrow> addr \<Rightarrow> nat \<Rightarrow> addr" where
  "slot s a k = a + sizeof_slabStruct + object_size s * of_nat k"

text \<open>
  The outstanding allocations are recorded beside the state as a multiset of pairs: the
  pointer \<open>cache_alloc\<close> returned and the slab it was carved from.
\<close>

definition live_ok :: "world \<Rightarrow> (addr \<times> addr) multiset \<Rightarrow> bool" where
  "live_ok s l \<longleftrightarrow>
     (\<forall>e \<in># l. snd e \<in> dom (heap s) \<and> (\<exists>k < unat (slab_objects s). fst e = slot s (snd e) k))"

definition counted :: "world \<Rightarrow> (addr \<times> addr) multiset \<Rightarrow> bool" where
  "counted s l \<longleftrightarrow>
     (\<forall>a \<in> dom (heap s). in_use s a = size (filter_mset (\<lambda>e. snd e = a) l))"

definition balanced :: "world \<Rightarrow> bool" where
  "balanced s \<longleftrightarrow> acquires s = releases s + card (dom (heap s))"

definition invariant ::
  "world \<Rightarrow> (addr \<times> addr) multiset \<Rightarrow> addr list \<Rightarrow> addr list \<Rightarrow> addr list \<Rightarrow> bool" where
  "invariant s l fs ps us \<longleftrightarrow>
     lists_wf s fs ps us \<and> occupancy_ok s fs ps us \<and> geometry_ok s \<and>
     (\<forall>a \<in> dom (heap s). base_aligned s a) \<and> live_ok s l \<and> counted s l \<and> balanced s"

subsection \<open>Reachable states\<close>

text \<open>
  The preconditions of the public interface: \<open>cache_setup\<close> is called on a cache that holds
  no region, with a positive object size that fits a slab of order at most 10 together
  with the header; the page primitive, when asked, answers with a fresh non-null region
  aligned on its size; \<open>cache_free\<close> is given an outstanding pointer.
\<close>

definition valid_object_size :: "64 word \<Rightarrow> bool" where
  "valid_object_size n \<longleftrightarrow> 0 < unat n \<and> unat n + 24 < 2 ^ 22"

definition valid_reply :: "world \<Rightarrow> addr \<times> slabStruct \<Rightarrow> bool" where
  "valid_reply s reply \<longleftrightarrow>
     fst reply \<noteq> 0 \<and> heap s (fst reply) = None \<and> base_aligned s (fst reply)"

definition alloc_source :: "addr \<times> slabStruct \<Rightarrow> world \<Rightarrow> addr" where
  "alloc_source reply s =
     (if partially_slab s \<noteq> 0 then partially_slab s
      else if complete_slab s \<noteq> 0 then complete_slab s
      else fst reply)"

inductive reach :: "world \<Rightarrow> (addr \<times> addr) multiset \<Rightarrow> bool" where
  reach_setup:
    "heap s = Map.empty \<Longrightarrow> acquires s = releases s \<Longrightarrow> valid_object_size n \<Longrightarrow>
     cache_setup n s = Some s' \<Longrightarrow> reach s' {#}"
| reach_alloc:
    "reach s l \<Longrightarrow> (partially_slab s = 0 \<and> complete_slab s = 0 \<longrightarrow> valid_reply s reply) \<Longrightarrow>
     cache_alloc reply s = Some (p, s') \<Longrightarrow> reach s' (add_mset (p, alloc_source reply s) l)"
| reach_free:
    "reach s l \<Longrightarrow> (p, a) \<in># l \<Longrightarrow> cache_free p s = Some s' \<Longrightarrow>
     reach s' (l - {#(p, a)#})"
| reach_shrink:
    "reach s l \<Longrightarrow> cache_shrink s = Some s' \<Longrightarrow> reach s' l"
| reach_release:
    "reach s l \<Longrightarrow> cache_release s = Some s' \<Longrightarrow> reach s' {#}"

subsection \<open>The effect of the list primitives on the store\<close>

text \<open>
  The store after \<open>insert_in_*_list\<close> (push at the front of the list with head \<open>head\<close>),
  after the removal of the first slab of a list in \<open>cache_alloc\<close> (the new head \<open>nx\<close>
  loses its predecessor), and after \<open>remove_from_empty_list\<close>.
\<close>

definition push_heap :: "(addr \<rightharpoonup> slabStruct) \<Rightarrow> addr \<Rightarrow> addr \<Rightarrow> (addr \<rightharpoonup> slabStruct)" where
  "push_heap h slab head =
     (let h1 = h(slab \<mapsto> (the (h slab))\<lparr>next := head\<rparr>);
          h2 = h1(slab \<mapsto> (the (h1 slab))\<lparr>previous := 0\<rparr>)
      in if head \<noteq> 0 then h2(head \<mapsto> (the (h2 head))\<lparr>previous := slab\<rparr>) else h2)"

definition pop_heap :: "(addr \<rightharpoonup> slabStruct) \<Rightarrow> addr \<Rightarrow> (addr \<rightharpoonup> slabStruct)" where
  "pop_heap h nx = (if nx \<noteq> 0 then h(nx \<mapsto> (the (h nx))\<lparr>previous := 0\<rparr>) else h)"

definition unlink_heap :: "(addr \<rightharpoonup> slabStruct) \<Rightarrow> addr \<Rightarrow> (addr \<rightharpoonup> slabStruct)" where
  "unlink_heap h slab =
     (let sl = the (h slab);
          h1 = (if previous sl \<noteq> 0
                then h(previous sl \<mapsto> (the (h (previous sl)))\<lparr>next := next sl\<rparr>) else h);
          sl1 = the (h1 slab);
          h2 = (if next sl1 \<noteq> 0
                then h1(next sl1 \<mapsto> (the (h1 (next sl1)))\<lparr>previous := previous sl1\<rparr>) else h1);
          h3 = h2(slab \<mapsto> (the (h2 slab))\<lparr>previous := 0\<rparr>)
      in h3(slab \<mapsto> (the (h3 slab))\<lparr>next := 0\<rparr>))"

subsection \<open>A concrete run\<close>

text \<open>
  The driver starts from a zero-initialised cache (\<open>cache{}\<close>) and no region held. The
  contents of a fresh region are arbitrary; \<open>junk\<close> is one such header.
\<close>

definition world0 :: world where
  "world0 = \<lparr>complete_slab = 0, partially_slab = 0, empty_slab = 0, object_size = 0,
     slab_order = 0, slab_objects = 0, heap = Map.empty, acquires = 0, releases = 0\<rparr>"

definition junk :: slabStruct where
  "junk = \<lparr>previous = 7, next = 9, refcnt = 5\<rparr>"

text \<open>
  A run that leaves one slab on the free list and one, with both of its two slots in use,
  on the full list: \<open>cache_setup(2036)\<close>, two allocations from a slab at 4096, a third
  from a new slab at 8192, and the release of the third object.
\<close>

definition ex1 :: world where
  "ex1 = the (cache_setup 2036 world0)"

definition ex2 :: world where
  "ex2 = snd (the (cache_alloc (4096, junk) ex1))"

definition ex3 :: world where
  "ex3 = snd (the (cache_alloc (0, junk) ex2))"

definition ex4 :: world where
  "ex4 = snd (the (cache_alloc (8192, junk) ex3))"

definition ex5 :: world where
  "ex5 = the (cache_free 8216 ex4)"

definition ex_live :: "(addr \<times> addr) multiset" where
  "ex_live = {#(6156, 4096), (4120, 4096)#}"

section \<open>Evaluation of the operations\<close>

lemmas eval_defs = cache_alloc_def cache_free_def cache_setup_def alloc_slab_def free_slab_def
  set_previous_def set_next_def set_refcnt_def insert_in_complete_list_def
  insert_in_partially_list_def insert_in_empty_list_def remove_from_empty_list_def
  calculate_slab_start_def sizeof_slabStruct_def smallest_power_of_two_def
  smallest_power_of_two_loop.simps world0_def junk_def

section \<open>Geometry\<close>

lemma unat_drop_bit_1: "unat (drop_bit 1 (n :: 64 word)) = unat n div 2"
  using unat_drop_bit_eq [of 1 n] by (simp add: drop_bit_eq_div)

lemma unat_drop_bit_Suc0: "unat (drop_bit (Suc 0) (n :: 64 word)) = unat n div 2"
  using unat_drop_bit_1 [of n] by simp

lemma spt_loop_upper: "(unat n + 1) * 2 ^ pow \<le> 2 ^ smallest_power_of_two_loop n pow"
proof (induction n pow rule: smallest_power_of_two_loop.induct)
  case (1 n pow)
  show ?case
  proof (cases "0 < n")
    case True
    with 1 have ih: "(unat n div 2 + 1) * 2 ^ (pow + 1)
        \<le> 2 ^ smallest_power_of_two_loop (drop_bit 1 n) (pow + 1)"
      by (simp add: unat_drop_bit_Suc0)
    have "unat n + 1 \<le> 2 * (unat n div 2 + 1)" by arith
    then have "(unat n + 1) * 2 ^ pow \<le> (2 * (unat n div 2 + 1)) * 2 ^ pow"
      by (rule mult_le_mono1)
    also have "\<dots> = (unat n div 2 + 1) * 2 ^ (pow + 1)" by simp
    finally have "(unat n + 1) * 2 ^ pow
        \<le> 2 ^ smallest_power_of_two_loop (drop_bit 1 n) (pow + 1)"
      using ih by (rule le_trans)
    then show ?thesis using True by (subst smallest_power_of_two_loop.simps) simp
  next
    case False
    then have "n = 0" by (simp add: word_greater_zero_iff)
    then show ?thesis by (subst smallest_power_of_two_loop.simps) simp
  qed
qed

lemma spt_loop_lower:
  "0 < n \<Longrightarrow> 2 ^ smallest_power_of_two_loop n pow \<le> 2 * unat n * 2 ^ pow"
proof (induction n pow rule: smallest_power_of_two_loop.induct)
  case (1 n pow)
  from "1.prems" have step: "smallest_power_of_two_loop n pow
      = smallest_power_of_two_loop (drop_bit 1 n) (pow + 1)"
    by (subst smallest_power_of_two_loop.simps) simp
  show ?case
  proof (cases "0 < drop_bit 1 n")
    case True
    with 1 have "2 ^ smallest_power_of_two_loop (drop_bit 1 n) (pow + 1)
        \<le> 2 * (unat n div 2) * 2 ^ (pow + 1)"
      by (simp add: unat_drop_bit_Suc0)
    also have "\<dots> = (2 * (unat n div 2)) * (2 * 2 ^ pow)" by simp
    also have "\<dots> \<le> unat n * (2 * 2 ^ pow)"
      by (rule mult_le_mono1) arith
    finally show ?thesis using step by (simp add: ac_simps)
  next
    case False
    then have z: "drop_bit 1 n = 0" by (simp add: word_greater_zero_iff)
    have "smallest_power_of_two_loop (drop_bit 1 n) (pow + 1) = pow + 1"
      unfolding z by (subst smallest_power_of_two_loop.simps) simp
    moreover have "1 \<le> unat n" using "1.prems" by (simp add: word_less_nat_alt)
    then have "1 * (2::nat) ^ (pow + 1) \<le> unat n * 2 ^ (pow + 1)" by (rule mult_le_mono1)
    ultimately show ?thesis using step by (simp add: ac_simps)
  qed
qed

lemma spt_upper: "unat n < 2 ^ smallest_power_of_two n"
  using spt_loop_upper [of n 0] by (simp add: smallest_power_of_two_def)

lemma spt_lower: "n \<noteq> 0 \<Longrightarrow> 2 ^ smallest_power_of_two n \<le> 2 * unat n"
  using spt_loop_lower [of n 0] by (simp add: smallest_power_of_two_def word_greater_zero_iff)

lemma spt_zero: "smallest_power_of_two 0 = 0"
  unfolding smallest_power_of_two_def by (subst smallest_power_of_two_loop.simps) simp

lemma spt_least:
  assumes "unat n < 2 ^ k"
  shows "smallest_power_of_two n \<le> k"
proof (cases "n = 0")
  case True
  then show ?thesis by (simp add: spt_zero)
next
  case False
  then have "(2::nat) ^ smallest_power_of_two n \<le> 2 * unat n" by (rule spt_lower)
  also have "\<dots> < 2 * 2 ^ k" using assms by simp
  finally have "(2::nat) ^ smallest_power_of_two n < 2 ^ (k + 1)" by simp
  then have "smallest_power_of_two n < k + 1"
    using power_less_imp_less_exp [of 2 "smallest_power_of_two n" "k + 1"] by simp
  then show ?thesis by simp
qed

lemma order_fits:
  fixes x :: "64 word"
  shows "unat x < 4096 * 2 ^ smallest_power_of_two (x div 4096)"
proof -
  have "unat (x div 4096) < 2 ^ smallest_power_of_two (x div 4096)" by (rule spt_upper)
  then have "unat x div 4096 < 2 ^ smallest_power_of_two (x div 4096)" by (simp add: unat_div)
  then show ?thesis by (simp add: div_less_iff_less_mult ac_simps)
qed

lemma order_least:
  fixes x :: "64 word"
  assumes "unat x < 4096 * 2 ^ k"
  shows "smallest_power_of_two (x div 4096) \<le> k"
proof -
  have "unat x div 4096 < 2 ^ k" using assms by (simp add: div_less_iff_less_mult ac_simps)
  then have "unat (x div 4096) < 2 ^ k" by (simp add: unat_div)
  then show ?thesis by (rule spt_least)
qed

lemma pb_mask: "push_bit k 1 - 1 = (mask k :: 64 word)"
  by (simp add: mask_eq_exp_minus_1)

lemma and_not_mask_self:
  fixes a :: "64 word"
  assumes "a AND mask k = 0"
  shows "a AND NOT (mask k) = a"
proof -
  have "a = a AND (mask k OR NOT (mask k))" by simp
  also have "\<dots> = (a AND mask k) OR (a AND NOT (mask k))"
    by (simp only: bit.conj_disj_distrib)
  also have "\<dots> = a AND NOT (mask k)" using assms by simp
  finally show ?thesis by simp
qed

lemma small_and_not_mask:
  fixes off :: "64 word"
  assumes "unat off < 2 ^ k"
  shows "off AND NOT (mask k) = 0"
proof -
  have "uint off < 2 ^ k" using assms
    by (metis of_nat_less_iff of_nat_numeral of_nat_power uint_nat) 
  then have "off AND mask k = off" by (simp add: mask_eq_iff)
  then have "off AND NOT (mask k) = (off AND mask k) AND NOT (mask k)" by simp
  also have "\<dots> = 0" by (simp only: and.assoc bit.conj_cancel_right and_zero_eq)
  finally show ?thesis .
qed

lemma mask_off:
  fixes a off :: "64 word"
  assumes a: "a AND (push_bit k 1 - 1) = 0" and o: "unat off < 2 ^ k" 
  shows "(a + off) AND NOT (push_bit k 1 - 1) = a"
proof -
  have a': "a AND mask k = 0" using a by (simp only: pb_mask)
  have o': "off AND NOT (mask k) = 0" using o by (rule small_and_not_mask)
  have "a AND off = (a AND NOT (mask k)) AND off" using and_not_mask_self [OF a'] by simp
  also have "\<dots> = a AND (off AND NOT (mask k))" by (metis and.assoc and.commute)
  also have "\<dots> = 0" using o' by simp
  finally have "a + off = a OR off" by (rule disjunctive_add_eq_or)
  then have "(a + off) AND NOT (mask k) = (a AND NOT (mask k)) OR (off AND NOT (mask k))"
    by (simp only: bit.conj_disj_distrib2)
  also have "\<dots> = a" using o' and_not_mask_self [OF a'] by simp
  finally show ?thesis by (simp only: pb_mask)
qed

section \<open>Slab counters and slot addresses\<close>

lemma unat_ucast_refcnt: "unat (ucast (r :: 32 word) :: 64 word) = unat r"
proof -
  have "unat r < 2 ^ 32" using unsigned_less [of r, where 'a = nat] by simp
  then have "unat r < 2 ^ 64" by simp
  then show ?thesis by (simp add: unsigned_ucast_eq take_bit_nat_eq_self)
qed

lemma ucast_refcnt_of_nat: "(ucast (r :: 32 word) :: 64 word) = of_nat (unat r)"
  by simp

lemma ucast_refcnt_eq: "(ucast (r :: 32 word) :: 64 word) = x \<longleftrightarrow> unat r = unat x"
  using unat_ucast_refcnt [of r] by (auto simp: word_unat_eq_iff)

lemma unat_refcnt_inc: "unat (r :: 32 word) + 1 < 2 ^ 32 \<Longrightarrow> unat (r + 1) = unat r + 1"
  using unat_add_lem [of r 1] by simp

lemma unat_refcnt_dec: "0 < unat (r :: 32 word) \<Longrightarrow> unat (r - 1) = unat r - 1"
  by (metis unat_minus_one unsigned_0 bot_nat_0.not_eq_extremum)

lemma unat_of_nat64: "k < 2 ^ 64 \<Longrightarrow> unat (of_nat k :: 64 word) = k"
  by (simp add: unat_of_nat)

lemma unat_off: 
  fixes os :: "64 word"
  assumes "24 + unat os * k < 2 ^ 64" and "0 < unat os"
  shows "unat (24 + os * of_nat k) = 24 + unat os * k"
proof -
  have "k \<le> unat os * k" using assms(2) by simp
  moreover have "unat os * k < 2 ^ 64" using assms(1) by arith
  ultimately have k: "k < 2 ^ 64" by (rule le_less_trans)
  then have uk: "unat (of_nat k :: 64 word) = k" by (rule unat_of_nat64)
  have m: "unat (os * of_nat k) = unat os * k"
    using unat_mult_lem [of os "of_nat k"] assms uk by simp
  show ?thesis
    using unat_add_lem [of 24 "os * of_nat k"] assms m by simp
qed

section \<open>Chains in the store\<close>

subsection \<open>Chains\<close>

lemma dll_seg_agree:
  "(\<And>a. a \<in> set xs \<Longrightarrow> h' a = h a) \<Longrightarrow> dll_seg h' pv p xs q = dll_seg h pv p xs q"
  by (induction xs arbitrary: pv p) (auto split: option.splits)

lemma dll_seg_upd_notin [simp]:
  "a \<notin> set xs \<Longrightarrow> dll_seg (h(a := v)) pv p xs q = dll_seg h pv p xs q"
  by (rule dll_seg_agree) auto

lemma dll_seg_links:
  "(\<And>a. a \<in> set xs \<Longrightarrow> map_option (\<lambda>sl. (previous sl, next sl)) (h' a)
       = map_option (\<lambda>sl. (previous sl, next sl)) (h a))
   \<Longrightarrow> dll_seg h' pv p xs q = dll_seg h pv p xs q"
proof (induction xs arbitrary: pv p)
  case Nil
  then show ?case by simp
next
  case (Cons x xs)
  have "map_option (\<lambda>sl. (previous sl, next sl)) (h' x)
       = map_option (\<lambda>sl. (previous sl, next sl)) (h x)"
    by (rule Cons.prems) simp
  moreover have "\<And>pv p. dll_seg h' pv p xs q = dll_seg h pv p xs q"
    by (rule Cons.IH) (simp add: Cons.prems)
  ultimately show ?case
    by (cases "h x"; cases "h' x") auto
qed

lemma dll_seg_refcnt_upd [simp]:
  "h a = Some sl \<Longrightarrow> dll_seg (h(a \<mapsto> sl\<lparr>refcnt := v\<rparr>)) pv p xs q = dll_seg h pv p xs q"
  by (rule dll_seg_links) auto

lemma dll_seg_dom: "dll_seg h pv p xs q \<Longrightarrow> set xs \<subseteq> dom h \<and> 0 \<notin> set xs"
  by (induction xs arbitrary: pv p) (auto split: option.splits)

lemma dll_seg_append:
  "dll_seg h pv p (xs @ ys) q
   \<longleftrightarrow> (\<exists>m. dll_seg h pv p xs m \<and> dll_seg h (last (pv # xs)) m ys q)"
  by (induction xs arbitrary: pv p) (auto split: option.splits)

lemma dll_seg_unique:
  "dll_seg h pv p xs 0 \<Longrightarrow> dll_seg h pv p ys 0 \<Longrightarrow> xs = ys"
proof (induction xs arbitrary: pv p ys)
  case Nil
  then show ?case by (cases ys) auto
next
  case (Cons x xs)
  then show ?case by (cases ys) (auto split: option.splits)
qed

lemma dll_seg_retarget:
  "dll_seg h pv p xs q \<Longrightarrow> xs \<noteq> [] \<Longrightarrow> distinct xs \<Longrightarrow>
   dll_seg (h(last xs \<mapsto> (the (h (last xs)))\<lparr>next := q'\<rparr>)) pv p xs q'"
proof (induction xs arbitrary: pv p)
  case Nil
  then show ?case by simp
next
  case (Cons x xs)
  show ?case
  proof (cases "xs = []")
    case True
    with Cons.prems show ?thesis by (auto split: option.splits)
  next
    case False
    with Cons.prems have "x \<noteq> last xs" by auto
    with Cons False show ?thesis by (auto split: option.splits)
  qed
qed

lemma dll_Nil [simp]: "dll h p [] \<longleftrightarrow> p = 0"
  by (simp add: dll_def)

lemma dll_Cons:
  "dll h p (x # xs) \<longleftrightarrow>
   p = x \<and> x \<noteq> 0 \<and> (\<exists>sl. h x = Some sl \<and> previous sl = 0 \<and> dll_seg h x (next sl) xs 0)"
  by (auto simp: dll_def split: option.splits)

lemma dll_head: "dll h p xs \<Longrightarrow> p = (case xs of [] \<Rightarrow> 0 | x # _ \<Rightarrow> x)"
  by (cases xs) (auto simp: dll_Cons)

lemma dll_null: "dll h 0 xs \<longleftrightarrow> xs = []"
  by (cases xs) (auto simp: dll_Cons)

subsection \<open>push\<close>

lemma push_heap_dll:
  assumes "dll h head xs" and "h slab \<noteq> None" and "slab \<noteq> 0" and "slab \<notin> set xs"
    and "distinct xs"
  shows "dll (push_heap h slab head) slab (slab # xs)"
proof (cases xs)
  case Nil
  with assms show ?thesis by (auto simp: dll_Cons push_heap_def)
next
  case (Cons y ys)
  with assms show ?thesis by (auto simp: dll_Cons push_heap_def Let_def)
qed

lemma push_heap_outside:
  "a \<noteq> slab \<Longrightarrow> a \<noteq> head \<Longrightarrow> push_heap h slab head a = h a"
  by (simp add: push_heap_def Let_def)

lemma push_heap_refcnt:
  "h slab \<noteq> None \<Longrightarrow> (head \<noteq> 0 \<Longrightarrow> h head \<noteq> None) \<Longrightarrow>
   map_option refcnt (push_heap h slab head a) = map_option refcnt (h a)"
  by (auto simp: push_heap_def Let_def)

subsection \<open>pop\<close>

lemma pop_heap_dll:
  assumes "dll h p (x # xs)" and "distinct (x # xs)" and "h x = Some sl"
  shows "dll (pop_heap h (next sl)) (next sl) xs"
proof (cases xs)
  case Nil
  with assms show ?thesis by (auto simp: dll_Cons pop_heap_def)
next
  case (Cons y ys)
  with assms show ?thesis by (auto simp: dll_Cons dll_def pop_heap_def split: option.splits)
qed

lemma pop_heap_outside: "a \<noteq> nx \<Longrightarrow> pop_heap h nx a = h a"
  by (simp add: pop_heap_def)

lemma pop_heap_refcnt:
  "(nx \<noteq> 0 \<Longrightarrow> h nx \<noteq> None) \<Longrightarrow> map_option refcnt (pop_heap h nx a) = map_option refcnt (h a)"
  by (auto simp: pop_heap_def)

lemma unlink_heap_outside:
  assumes "a \<noteq> slab" and "h slab = Some sl" and "a \<noteq> previous sl" and "a \<noteq> next sl"
  shows "unlink_heap h slab a = h a"
  using assms by (auto simp: unlink_heap_def Let_def)

lemma unlink_heap_refcnt:
  assumes "h slab = Some sl" and "previous sl \<noteq> 0 \<Longrightarrow> h (previous sl) \<noteq> None"
    and "next sl \<noteq> 0 \<Longrightarrow> h (next sl) \<noteq> None"
  shows "map_option refcnt (unlink_heap h slab a) = map_option refcnt (h a)"
  using assms by (auto simp: unlink_heap_def Let_def)

lemma dll_split:
  assumes "dll h head (ys @ S # zs)"
  obtains sl where "h S = Some sl" and "previous sl = last (0 # ys)"
    and "dll_seg h 0 head ys S" and "dll_seg h S (next sl) zs 0" and "S \<noteq> 0"
  using assms by (auto simp: dll_def dll_seg_append split: option.splits)

lemma unlink_heap_dll:
  assumes d: "dll h head (ys @ S # zs)" and dist: "distinct (ys @ S # zs)"
    and hS: "h S = Some sl"
  shows "dll (unlink_heap h S) (if ys = [] then next sl else head) (ys @ zs)"
proof -
  from d hS have pv: "previous sl = last (0 # ys)" and seg1: "dll_seg h 0 head ys S"
    and seg2: "dll_seg h S (next sl) zs 0" and "S \<noteq> 0"
    by (auto elim!: dll_split)
  from seg1 have nz: "0 \<notin> set ys" by (simp add: dll_seg_dom)
  from seg2 have nzz: "0 \<notin> set zs" and zdom: "set zs \<subseteq> dom h" by (simp_all add: dll_seg_dom)
  have nx: "next sl = (case zs of [] \<Rightarrow> 0 | z # _ \<Rightarrow> z)"
    using seg2 by (cases zs) auto
  show ?thesis
  proof (cases "ys = []")
    case True
    with pv have p0: "previous sl = 0" by simp
    show ?thesis
    proof (cases zs)
      case Nil
      with True nx show ?thesis by simp
    next
      case (Cons z zs')
      with True nx seg2 dist hS p0 show ?thesis
        by (auto simp: dll_Cons unlink_heap_def Let_def split: option.splits)
    qed
  next
    case False
    with pv have pl: "previous sl = last ys" by simp
    from False nz have l0: "last ys \<noteq> 0" using last_in_set by metis
    from False dist have lS: "last ys \<noteq> S" by auto
    define h1 where "h1 = h(last ys \<mapsto> (the (h (last ys)))\<lparr>next := next sl\<rparr>)"
    have r: "dll_seg h1 0 head ys (next sl)"
      unfolding h1_def using seg1 False dist by (intro dll_seg_retarget) auto
    show ?thesis
    proof (cases zs)
      case Nil
      with nx have n0: "next sl = 0" by simp
      have "unlink_heap h S = h1(S \<mapsto> sl\<lparr>previous := 0, next := 0\<rparr>)"
        using hS pl l0 lS n0 by (simp add: unlink_heap_def Let_def h1_def)
      moreover have "S \<notin> set ys" using dist by simp
      ultimately show ?thesis using r Nil False n0 by (simp add: dll_def)
    next
      case (Cons z zs')
      with nx have nz': "next sl = z" by simp
      from Cons seg2 obtain sz where hz: "h z = Some sz" and pz: "previous sz = S"
        and seg3: "dll_seg h z (next sz) zs' 0" and z0: "z \<noteq> 0"
        by (auto split: option.splits)
      from dist Cons have zn: "z \<notin> set ys" "z \<noteq> S" "z \<notin> set zs'" "S \<notin> set ys" "S \<notin> set zs'"
        "set ys \<inter> set zs' = {}"
        by auto
      from zn False have zl: "z \<noteq> last ys" using last_in_set by metis
      have lzs: "last ys \<notin> set zs'" using zn(6) False last_in_set by blast
      have eq: "unlink_heap h S = h1(z \<mapsto> sz\<lparr>previous := last ys\<rparr>, S \<mapsto> sl\<lparr>previous := 0, next := 0\<rparr>)"
        using hS pl l0 lS nz' z0 hz zl zn(2)
        by (simp add: unlink_heap_def Let_def h1_def)
      have a: "dll_seg (unlink_heap h S) 0 head ys z"
        unfolding eq using r zn nz' by simp
      have "dll_seg (h1(z \<mapsto> sz\<lparr>previous := last ys\<rparr>, S \<mapsto> sl\<lparr>previous := 0, next := 0\<rparr>)) z (next sz) zs' 0"
        using seg3 zn lzs by (simp add: h1_def)
      then have b: "dll_seg (unlink_heap h S) (last ys) z (z # zs') 0"
        unfolding eq using z0 zn by simp
      show ?thesis
        using a b False Cons by (auto simp: dll_def dll_seg_append)
    qed
  qed
qed

lemma free_list_dll:
  "dll_seg (heap s) pv p xs 0 \<Longrightarrow> distinct xs \<Longrightarrow>
   free_list p s = Some (s\<lparr>heap := heap s |` (- set xs), releases := releases s + length xs\<rparr>)"
proof (induction xs arbitrary: s pv p)
  case Nil
  have "heap s |` UNIV = heap s" by (simp add: restrict_map_def)
  with Nil show ?case by (subst free_list.simps) simp
next
  case (Cons x xs)
  from Cons.prems obtain sl where hx: "heap s x = Some sl" and px: "p = x" "x \<noteq> 0"
    and seg: "dll_seg (heap s) x (next sl) xs 0"
    by (auto split: option.splits)
  let ?s1 = "s\<lparr>heap := (heap s)(x := None), releases := releases s + 1\<rparr>"
  have f: "free_slab x s = Some ?s1" using hx px by (simp add: free_slab_def)
  have d1: "dll_seg (heap ?s1) x (next sl) xs 0" using seg Cons.prems(2) by simp
  have d2: "distinct xs" using Cons.prems(2) by simp
  have "free_list (next sl) ?s1
      = Some (?s1\<lparr>heap := heap ?s1 |` (- set xs), releases := releases ?s1 + length xs\<rparr>)"
    using d1 d2 by (rule Cons.IH)
  moreover have "heap ?s1 |` (- set xs) = heap s |` (- set (x # xs))"
    by (auto simp: restrict_map_def fun_eq_iff)
  ultimately show ?case using hx px f
    by (subst free_list.simps) simp
qed

section \<open>The list primitives\<close>

lemma set_previous_Some [simp]:
  "heap s p = Some sl \<Longrightarrow> set_previous p v s = Some (s\<lparr>heap := (heap s)(p \<mapsto> sl\<lparr>previous := v\<rparr>)\<rparr>)"
  by (simp add: set_previous_def)

lemma set_next_Some [simp]:
  "heap s p = Some sl \<Longrightarrow> set_next p v s = Some (s\<lparr>heap := (heap s)(p \<mapsto> sl\<lparr>next := v\<rparr>)\<rparr>)"
  by (simp add: set_next_def)

lemma set_refcnt_Some [simp]:
  "heap s p = Some sl \<Longrightarrow> set_refcnt p v s = Some (s\<lparr>heap := (heap s)(p \<mapsto> sl\<lparr>refcnt := v\<rparr>)\<rparr>)"
  by (simp add: set_refcnt_def)

lemma insert_in_empty_list_eq:
  assumes "heap s slab \<noteq> None" and "empty_slab s \<noteq> 0 \<Longrightarrow> heap s (empty_slab s) \<noteq> None"
  shows "insert_in_empty_list slab s
    = Some (s\<lparr>heap := push_heap (heap s) slab (empty_slab s), empty_slab := slab\<rparr>)"
  using assms by (auto simp: insert_in_empty_list_def push_heap_def Let_def)

lemma insert_in_partially_list_eq:
  assumes "heap s slab \<noteq> None"
    and "partially_slab s \<noteq> 0 \<Longrightarrow> heap s (partially_slab s) \<noteq> None"
  shows "insert_in_partially_list slab s
    = Some (s\<lparr>heap := push_heap (heap s) slab (partially_slab s), partially_slab := slab\<rparr>)"
  using assms by (auto simp: insert_in_partially_list_def push_heap_def Let_def)

lemma insert_in_complete_list_eq:
  assumes "heap s slab \<noteq> None"
    and "complete_slab s \<noteq> 0 \<Longrightarrow> heap s (complete_slab s) \<noteq> None"
  shows "insert_in_complete_list slab s
    = Some (s\<lparr>heap := push_heap (heap s) slab (complete_slab s), complete_slab := slab\<rparr>)"
  using assms by (auto simp: insert_in_complete_list_def push_heap_def Let_def)

lemma remove_from_empty_list_eq:
  assumes "heap s slab = Some sl" and "previous sl \<noteq> 0 \<Longrightarrow> heap s (previous sl) \<noteq> None"
    and "next sl \<noteq> 0 \<Longrightarrow> heap s (next sl) \<noteq> None"
  shows "remove_from_empty_list slab s
    = Some (s\<lparr>heap := unlink_heap (heap s) slab,
              empty_slab := (if previous sl = 0 \<and> empty_slab s = slab then next sl
                             else empty_slab s),
              partially_slab := (if previous sl = 0 \<and> empty_slab s \<noteq> slab \<and> partially_slab s = slab
                                 then next sl else partially_slab s)\<rparr>)"
  using assms by (auto simp: remove_from_empty_list_def unlink_heap_def Let_def)

section \<open>Re-establishing the invariant\<close>

lemma in_use_refcnt:
  "map_option refcnt (heap s' a) = map_option refcnt (heap s a) \<Longrightarrow> in_use s' a = in_use s a"
  by (cases "heap s a"; cases "heap s' a") (auto simp: in_use_def)

lemma in_use_None: "heap s a = None \<Longrightarrow> in_use s a = 0"
  by (simp add: in_use_def)

lemma live_none:
  assumes "live_ok s l" and "S \<notin> dom (heap s)"
  shows "filter_mset (\<lambda>e. snd e = S) l = {#}"
  using assms by (induction l) (auto simp: live_ok_def)

lemma invariant_allocI:
  assumes inv: "invariant s l fs ps us"
    and wf: "lists_wf s' fs' ps' us'"
    and occ: "occupancy_ok s' fs' ps' us'"
    and geo: "object_size s' = object_size s" "slab_order s' = slab_order s"
      "slab_objects s' = slab_objects s"
    and rel: "releases s' = releases s"
    and acq: "acquires s' = (if S \<in> dom (heap s) then acquires s else acquires s + 1)"
    and dom: "dom (heap s') = insert S (dom (heap s))"
    and al: "base_aligned s S"
    and iu: "\<And>a. in_use s' a = (if a = S then in_use s S + 1 else in_use s a)"
    and k: "in_use s S < unat (slab_objects s)"
  shows "invariant s' (add_mset (slot s S (in_use s S), S) l) fs' ps' us'"
proof -
  from inv have g: "geometry_ok s" and a: "\<forall>a \<in> dom (heap s). base_aligned s a"
    and lv: "live_ok s l" and c: "counted s l" and b: "balanced s"
    by (simp_all add: invariant_def)
  have g': "geometry_ok s'" using g geo by (simp add: geometry_ok_def)
  have a': "\<forall>a \<in> dom (heap s'). base_aligned s' a"
    using a al dom geo by (auto simp: base_aligned_def)
  have sl: "\<And>a k. slot s' a k = slot s a k" using geo by (simp add: slot_def)
  have lv': "live_ok s' (add_mset (slot s S (in_use s S), S) l)"
    unfolding live_ok_def
  proof
    fix e assume "e \<in># add_mset (slot s S (in_use s S), S) l"
    then consider "e = (slot s S (in_use s S), S)" | "e \<in># l" by auto
    then show "snd e \<in> dom (heap s') \<and> (\<exists>k<unat (slab_objects s'). fst e = slot s' (snd e) k)"
    proof cases
      case 1
      then show ?thesis using dom k geo sl by auto
    next
      case 2
      then show ?thesis using lv dom geo sl by (auto simp: live_ok_def)
    qed
  qed
  have c': "counted s' (add_mset (slot s S (in_use s S), S) l)"
    unfolding counted_def
  proof
    fix a assume "a \<in> dom (heap s')"
    then consider "a \<in> dom (heap s)" | "a = S" "S \<notin> dom (heap s)" using dom by auto
    then show "in_use s' a = size (filter_mset (\<lambda>e. snd e = a) (add_mset (slot s S (in_use s S), S) l))"
    proof cases
      case 1
      then show ?thesis using c iu by (auto simp: counted_def)
    next
      case 2
      from 2(2) have "heap s S = None" by (simp add: domIff)
      then have "in_use s S = 0" by (rule in_use_None)
      then show ?thesis using 2 live_none [OF lv 2(2)] iu by simp
    qed
  qed
  have b': "balanced s'"
    using b rel acq dom by (auto simp: balanced_def insert_absorb)
  show ?thesis using wf occ g' a' lv' c' b' by (simp add: invariant_def)
qed

lemma invariant_freeI:
  assumes inv: "invariant s l fs ps us"
    and wf: "lists_wf s' fs' ps' us'"
    and occ: "occupancy_ok s' fs' ps' us'"
    and geo: "object_size s' = object_size s" "slab_order s' = slab_order s"
      "slab_objects s' = slab_objects s"
    and rel: "releases s' = releases s"
    and acq: "acquires s' = acquires s"
    and dom: "dom (heap s') = dom (heap s)"
    and e: "(p, S) \<in># l"
    and iu: "\<And>a. in_use s' a = (if a = S then in_use s S - 1 else in_use s a)"
  shows "invariant s' (l - {#(p, S)#}) fs' ps' us'"
proof -
  from inv have g: "geometry_ok s" and a: "\<forall>a \<in> dom (heap s). base_aligned s a"
    and lv: "live_ok s l" and c: "counted s l" and b: "balanced s"
    by (simp_all add: invariant_def)
  have g': "geometry_ok s'" using g geo by (simp add: geometry_ok_def)
  have a': "\<forall>a \<in> dom (heap s'). base_aligned s' a"
    using a dom geo by (auto simp: base_aligned_def)
  have sl: "\<And>a k. slot s' a k = slot s a k" using geo by (simp add: slot_def)
  have lv': "live_ok s' (l - {#(p, S)#})"
    unfolding live_ok_def
  proof
    fix e assume "e \<in># l - {#(p, S)#}"
    then have "e \<in># l" by (rule in_diffD)
    then show "snd e \<in> dom (heap s') \<and> (\<exists>k<unat (slab_objects s'). fst e = slot s' (snd e) k)"
      using lv dom geo sl by (auto simp: live_ok_def)
  qed
  have c': "counted s' (l - {#(p, S)#})"
    unfolding counted_def
  proof
    fix a assume "a \<in> dom (heap s')"
    then have ad: "a \<in> dom (heap s)" using dom by simp
    then have ca: "in_use s a = size (filter_mset (\<lambda>e. snd e = a) l)"
      using c by (simp add: counted_def)
    show "in_use s' a = size (filter_mset (\<lambda>e. snd e = a) (l - {#(p, S)#}))"
    proof (cases "a = S")
      case True
      have "(p, S) \<in># filter_mset (\<lambda>e. snd e = S) l" using e by simp
      then have "size (filter_mset (\<lambda>e. snd e = S) l - {#(p, S)#})
          = size (filter_mset (\<lambda>e. snd e = S) l) - 1"
        by (rule size_Diff_singleton)
      then show ?thesis using True ca iu by simp
    next
      case False
      then show ?thesis using ca iu by simp
    qed
  qed
  have b': "balanced s'"
    using b rel acq dom by (auto simp: balanced_def)
  show ?thesis using wf occ g' a' lv' c' b' by (simp add: invariant_def)
qed

section \<open>Moving a slab between lists\<close>

lemma dll_agree: "(\<And>a. a \<in> set xs \<Longrightarrow> h' a = h a) \<Longrightarrow> dll h' p xs = dll h p xs"
  unfolding dll_def by (rule dll_seg_agree)

lemma dll_refcnt_upd [simp]:
  "h a = Some sl \<Longrightarrow> dll (h(a \<mapsto> sl\<lparr>refcnt := v\<rparr>)) p xs = dll h p xs"
  by (simp add: dll_def)

lemma dll_dom: "dll h p xs \<Longrightarrow> set xs \<subseteq> dom h \<and> 0 \<notin> set xs"
  unfolding dll_def by (rule dll_seg_dom)

lemma dll_head_in: "dll h p xs \<Longrightarrow> p \<noteq> 0 \<Longrightarrow> p \<in> set xs"
  by (cases xs) (auto simp: dll_Cons)

lemma dll_head_dom: "dll h p xs \<Longrightarrow> p \<noteq> 0 \<Longrightarrow> h p \<noteq> None"
  by (cases xs) (auto simp: dll_Cons)

lemma dll_next_in:
  "dll h p (x # xs) \<Longrightarrow> h x = Some sl \<Longrightarrow> next sl \<noteq> 0 \<Longrightarrow> next sl \<in> set xs"
  by (cases xs) (auto simp: dll_Cons)

lemma refcnt_None_iff:
  "map_option refcnt (h' a) = map_option refcnt (h a) \<Longrightarrow> h' a = None \<longleftrightarrow> h a = None"
  by (cases "h a"; cases "h' a") auto

lemma refcnt_dom:
  "(\<And>a. map_option refcnt (h' a) = map_option refcnt (h a)) \<Longrightarrow> dom h' = dom h"
proof -
  assume r: "\<And>a. map_option refcnt (h' a) = map_option refcnt (h a)"
  have "\<And>a. h' a = None \<longleftrightarrow> h a = None" using r by (rule refcnt_None_iff)
  then show ?thesis by (auto simp: dom_def)
qed

lemma push_dll_other:
  assumes "dll h pz zs" and "S \<notin> set zs" and "py \<noteq> 0 \<Longrightarrow> py \<notin> set zs"
  shows "dll (push_heap h S py) pz zs"
proof -
  have "0 \<notin> set zs" using dll_dom [OF assms(1)] by simp
  then have "\<And>a. a \<in> set zs \<Longrightarrow> push_heap h S py a = h a"
    using assms(2,3) by (intro push_heap_outside) auto
  then have "dll (push_heap h S py) pz zs = dll h pz zs" by (rule dll_agree)
  then show ?thesis using assms(1) by simp
qed

lemma pop_dll_other:
  assumes "dll h pz zs" and "nx \<noteq> 0 \<Longrightarrow> nx \<notin> set zs"
  shows "dll (pop_heap h nx) pz zs"
proof -
  have "0 \<notin> set zs" using dll_dom [OF assms(1)] by simp
  then have "\<And>a. a \<in> set zs \<Longrightarrow> pop_heap h nx a = h a"
    using assms(2) by (intro pop_heap_outside) auto
  then have "dll (pop_heap h nx) pz zs = dll h pz zs" by (rule dll_agree)
  then show ?thesis using assms(1) by simp
qed

lemma move_head:
  assumes x: "dll h px (S # xs)" and y: "dll h py ys" and z: "dll h pz zs"
    and dist: "distinct ((S # xs) @ ys @ zs)" and hS: "h S = Some sl"
  defines "h' \<equiv> push_heap (pop_heap h (next sl)) S py"
  shows "dll h' (next sl) xs" and "dll h' S (S # ys)" and "dll h' pz zs"
    and "\<And>a. map_option refcnt (h' a) = map_option refcnt (h a)"
proof -
  let ?nx = "next sl" and ?h1 = "pop_heap h (next sl)"
  from x have S0: "S \<noteq> 0" by (simp add: dll_Cons)
  have nx: "?nx \<noteq> 0 \<Longrightarrow> ?nx \<in> set xs" using x hS by (rule dll_next_in)
  from nx dist have nS: "?nx \<noteq> 0 \<Longrightarrow> ?nx \<noteq> S" and ny: "?nx \<noteq> 0 \<Longrightarrow> ?nx \<notin> set ys"
    and nz: "?nx \<noteq> 0 \<Longrightarrow> ?nx \<notin> set zs"
    by auto
  have "py \<noteq> 0 \<Longrightarrow> py \<in> set ys" using y by (rule dll_head_in)
  with dist have py: "py \<noteq> 0 \<Longrightarrow> py \<notin> set xs" "py \<noteq> 0 \<Longrightarrow> py \<notin> set zs"
    "py \<noteq> 0 \<Longrightarrow> py \<noteq> S"
    by auto
  have "set (S # xs) \<subseteq> dom h" using dll_dom [OF x] by simp
  then have nd: "?nx \<noteq> 0 \<Longrightarrow> h ?nx \<noteq> None"
    using nx by auto
  have pd: "py \<noteq> 0 \<Longrightarrow> h py \<noteq> None"
    using y by (rule dll_head_dom)
  have x1: "dll ?h1 ?nx xs" using x dist hS by (intro pop_heap_dll [where p = px]) auto
  have y1: "dll ?h1 py ys" using y ny by (rule pop_dll_other)
  have z1: "dll ?h1 pz zs" using z nz by (rule pop_dll_other)
  have S1: "?h1 S = h S" using nS S0 by (cases "?nx = 0") (auto simp: pop_heap_def)
  have r1: "\<And>a. map_option refcnt (?h1 a) = map_option refcnt (h a)"
    using nd by (rule pop_heap_refcnt)
  have pd1: "py \<noteq> 0 \<Longrightarrow> ?h1 py \<noteq> None"
    using pd refcnt_None_iff [of ?h1 py h] r1 by simp
  show "dll h' (next sl) xs"
    unfolding h'_def using x1 dist py by (intro push_dll_other) auto
  show "dll h' S (S # ys)"
    unfolding h'_def using y1 S1 hS S0 dist by (intro push_heap_dll) auto
  show "dll h' pz zs"
    unfolding h'_def using z1 dist py by (intro push_dll_other) auto
  show "\<And>a. map_option refcnt (h' a) = map_option refcnt (h a)"
  proof -
    fix a
    have "?h1 S \<noteq> None" using S1 hS by simp
    then have "map_option refcnt (push_heap ?h1 S py a) = map_option refcnt (?h1 a)"
      using pd1 by (rule push_heap_refcnt)
    then show "map_option refcnt (h' a) = map_option refcnt (h a)"
      unfolding h'_def using r1 [of a] by (rule trans)
  qed
qed

section \<open>Allocation\<close>

lemma geometry_objects_bound:
  assumes "geometry_ok s"
  shows "unat (slab_objects s) < 2 ^ 22"
proof -
  from assms have o: "slab_order s \<le> 10" and z: "0 < unat (object_size s)"
    and le: "24 + unat (slab_objects s) * unat (object_size s) \<le> 4096 * 2 ^ slab_order s"
    by (simp_all add: geometry_ok_def)
  have a: "unat (slab_objects s) \<le> unat (slab_objects s) * unat (object_size s)"
    using z by simp
  have "(2::nat) ^ slab_order s \<le> 2 ^ 10" using o by (intro power_increasing) simp_all
  then have b: "4096 * (2::nat) ^ slab_order s \<le> 4194304" by simp
  have "unat (slab_objects s) < 4194304" using a b le by linarith
  then show ?thesis by simp
qed

lemma refcnt_inc_in_range:
  assumes "geometry_ok s" and "unat (r :: 32 word) < unat (slab_objects s)"
  shows "unat (r + 1) = unat r + 1"
proof -
  have "unat r + 1 < 2 ^ 22 + 1" using geometry_objects_bound [OF assms(1)] assms(2) by simp
  then have "unat r + 1 < 2 ^ 32" by simp
  then show ?thesis by (rule unat_refcnt_inc)
qed

lemma slot_ucast: "S + sizeof_slabStruct + object_size s * ucast (r :: 32 word) = slot s S (unat r)"
  by (simp add: slot_def)

lemma in_use_Some: "heap s a = Some sl \<Longrightarrow> in_use s a = unat (refcnt sl)"
  by (simp add: in_use_def)

lemma inv_partial_head:
  assumes "invariant s l fs (S # ps) us"
  shows "partially_slab s = S" and "S \<noteq> 0" and "heap s S \<noteq> None"
    and "0 < in_use s S" and "in_use s S < unat (slab_objects s)"
  using assms by (auto simp: invariant_def lists_wf_def dll_Cons occupancy_ok_def)

lemma alloc_partial_stay:
  assumes inv: "invariant s l fs (S # ps) us" and hS: "heap s S = Some sl"
    and ne: "unat (refcnt sl) + 1 \<noteq> unat (slab_objects s)"
  defines "s' \<equiv> s\<lparr>heap := (heap s)(S \<mapsto> sl\<lparr>refcnt := refcnt sl + 1\<rparr>)\<rparr>"
  shows "cache_alloc reply s = Some (slot s S (unat (refcnt sl)), s')"
    and "invariant s' (add_mset (slot s S (unat (refcnt sl)), S) l) fs (S # ps) us"
proof -
  from inv have g: "geometry_ok s" and wf: "lists_wf s fs (S # ps) us"
    and occ: "occupancy_ok s fs (S # ps) us"
    by (simp_all add: invariant_def)
  note hd = inv_partial_head [OF inv]
  have iu: "in_use s S = unat (refcnt sl)" using hS by (rule in_use_Some)
  have lt: "unat (refcnt sl) < unat (slab_objects s)" using hd(5) iu by simp
  have inc: "unat (refcnt sl + 1) = unat (refcnt sl) + 1" using g lt by (rule refcnt_inc_in_range)
  show "cache_alloc reply s = Some (slot s S (unat (refcnt sl)), s')"
    using hd(1,2) hS ne inc
    by (simp add: cache_alloc_def slot_ucast ucast_refcnt_eq s'_def)
  have wf': "lists_wf s' fs (S # ps) us"
    using wf hS by (auto simp: lists_wf_def s'_def)
  have iu': "\<And>a. in_use s' a = (if a = S then in_use s S + 1 else in_use s a)"
    using hS inc by (simp add: in_use_def s'_def)
  have so: "slab_objects s' = slab_objects s" by (simp add: s'_def)
  have occ': "occupancy_ok s' fs (S # ps) us"
    using occ wf ne lt iu unfolding occupancy_ok_def lists_wf_def iu' so by auto
  have "invariant s' (add_mset (slot s S (in_use s S), S) l) fs (S # ps) us"
    using inv wf' occ'
  proof (rule invariant_allocI)
    show "acquires s' = (if S \<in> dom (heap s) then acquires s else acquires s + 1)"
      using hS by (auto simp: s'_def)
    show "dom (heap s') = insert S (dom (heap s))" using hS by (auto simp: s'_def)
    show "base_aligned s S" using inv hS by (auto simp: invariant_def)
    show "in_use s S < unat (slab_objects s)" using lt iu by simp
    show "\<And>a. in_use s' a = (if a = S then in_use s S + 1 else in_use s a)" by (rule iu')
  qed (simp_all add: s'_def)
  then show "invariant s' (add_mset (slot s S (unat (refcnt sl)), S) l) fs (S # ps) us"
    using iu by simp
qed

lemma pop_eq:
  "(nx \<noteq> 0 \<Longrightarrow> heap s nx \<noteq> None) \<Longrightarrow>
   (if nx \<noteq> 0 then set_previous nx 0 s else Some s) = Some (s\<lparr>heap := pop_heap (heap s) nx\<rparr>)"
  by (auto simp: pop_heap_def)

lemma pop_heap_None_iff:
  "(nx \<noteq> 0 \<Longrightarrow> h nx \<noteq> None) \<Longrightarrow> pop_heap h nx a = None \<longleftrightarrow> h a = None"
  by (auto simp: pop_heap_def)

lemma push_heap_None_iff:
  "h S \<noteq> None \<Longrightarrow> (head \<noteq> 0 \<Longrightarrow> h head \<noteq> None) \<Longrightarrow>
   push_heap h S head a = None \<longleftrightarrow> h a = None"
  by (auto simp: push_heap_def Let_def)

lemma insert_in_empty_list_eq':
  assumes "heap s slab \<noteq> None" and "empty_slab s = 0 \<or> heap s (empty_slab s) \<noteq> None"
  shows "insert_in_empty_list slab s
    = Some (s\<lparr>heap := push_heap (heap s) slab (empty_slab s), empty_slab := slab\<rparr>)"
  using assms by (intro insert_in_empty_list_eq) auto

lemma insert_in_partially_list_eq':
  assumes "heap s slab \<noteq> None"
    and "partially_slab s = 0 \<or> heap s (partially_slab s) \<noteq> None"
  shows "insert_in_partially_list slab s
    = Some (s\<lparr>heap := push_heap (heap s) slab (partially_slab s), partially_slab := slab\<rparr>)"
  using assms by (intro insert_in_partially_list_eq) auto

lemma insert_in_complete_list_eq':
  assumes "heap s slab \<noteq> None"
    and "complete_slab s = 0 \<or> heap s (complete_slab s) \<noteq> None"
  shows "insert_in_complete_list slab s
    = Some (s\<lparr>heap := push_heap (heap s) slab (complete_slab s), complete_slab := slab\<rparr>)"
  using assms by (intro insert_in_complete_list_eq) auto

lemma inv_heads_dom:
  assumes "invariant s l fs ps us"
  shows "complete_slab s \<noteq> 0 \<Longrightarrow> heap s (complete_slab s) \<noteq> None"
    and "partially_slab s \<noteq> 0 \<Longrightarrow> heap s (partially_slab s) \<noteq> None"
    and "empty_slab s \<noteq> 0 \<Longrightarrow> heap s (empty_slab s) \<noteq> None"
  using assms by (auto simp: invariant_def lists_wf_def dest: dll_head_dom)

lemma occupancy_in_use_cong:
  assumes "occupancy_ok s fs ps us" and "slab_objects s' = slab_objects s"
    and "\<And>a. a \<in> set fs' \<union> set ps' \<union> set us' \<Longrightarrow> a \<noteq> S \<Longrightarrow> in_use s' a = in_use s a"
    and "set fs' \<subseteq> insert S (set fs)" and "set ps' \<subseteq> insert S (set ps)"
    and "set us' \<subseteq> insert S (set us)"
    and "S \<in> set fs' \<Longrightarrow> in_use s' S = 0"
    and "S \<in> set ps' \<Longrightarrow> 0 < in_use s' S \<and> in_use s' S < unat (slab_objects s)"
    and "S \<in> set us' \<Longrightarrow> 0 < in_use s' S \<and> in_use s' S \<le> unat (slab_objects s)"
  shows "occupancy_ok s' fs' ps' us'"
  unfolding occupancy_ok_def
proof (intro conjI ballI)
  fix a assume "a \<in> set fs'"
  then show "in_use s' a = 0"
    using assms(1,3,4,7) by (cases "a = S") (auto simp: occupancy_ok_def)
next
  fix a assume a: "a \<in> set ps'"
  then have "a \<noteq> S \<Longrightarrow> a \<in> set ps" using assms(5) by auto
  then have "a \<noteq> S \<Longrightarrow> 0 < in_use s a \<and> in_use s a < unat (slab_objects s)"
    using assms(1) by (simp add: occupancy_ok_def)
  then show "0 < in_use s' a" and "in_use s' a < unat (slab_objects s')"
    using a assms(2,3,8) by (cases "a = S"; simp)+
next
  fix a assume a: "a \<in> set us'"
  then have "a \<noteq> S \<Longrightarrow> a \<in> set us" using assms(6) by auto
  then have "a \<noteq> S \<Longrightarrow> 0 < in_use s a \<and> in_use s a \<le> unat (slab_objects s)"
    using assms(1) by (simp add: occupancy_ok_def)
  then show "0 < in_use s' a" and "in_use s' a \<le> unat (slab_objects s')"
    using a assms(2,3,9) by (cases "a = S"; simp)+
qed

lemma alloc_partial_full:
  assumes inv: "invariant s l fs (S # ps) us" and hS: "heap s S = Some sl"
    and eq: "unat (refcnt sl) + 1 = unat (slab_objects s)"
  defines "h1 \<equiv> (heap s)(S \<mapsto> sl\<lparr>refcnt := refcnt sl + 1\<rparr>)"
  defines "s' \<equiv> s\<lparr>heap := push_heap (pop_heap h1 (next sl)) S (empty_slab s),
                    partially_slab := next sl, empty_slab := S\<rparr>"
  shows "cache_alloc reply s = Some (slot s S (unat (refcnt sl)), s')"
    and "invariant s' (add_mset (slot s S (unat (refcnt sl)), S) l) fs ps (S # us)"
proof -
  from inv have g: "geometry_ok s" and wf: "lists_wf s fs (S # ps) us"
    and occ: "occupancy_ok s fs (S # ps) us"
    by (simp_all add: invariant_def)
  note hd = inv_partial_head [OF inv]
  note hds = inv_heads_dom [OF inv]
  have iu: "in_use s S = unat (refcnt sl)" using hS by (rule in_use_Some)
  have lt: "unat (refcnt sl) < unat (slab_objects s)" using hd(5) iu by simp
  have inc: "unat (refcnt sl + 1) = unat (refcnt sl) + 1" using g lt by (rule refcnt_inc_in_range)
  from wf have dp: "dll (heap s) (partially_slab s) (S # ps)" and df: "dll (heap s) (complete_slab s) fs"
    and du: "dll (heap s) (empty_slab s) us" and dist: "distinct (fs @ (S # ps) @ us)"
    and dm: "dom (heap s) = set (fs @ (S # ps) @ us)"
    by (simp_all add: lists_wf_def)
  have h1S: "h1 S = Some (sl\<lparr>refcnt := refcnt sl + 1\<rparr>)" by (simp add: h1_def)
  have dp1: "dll h1 (partially_slab s) (S # ps)" and df1: "dll h1 (complete_slab s) fs"
    and du1: "dll h1 (empty_slab s) us"
    using dp df du hS by (simp_all add: h1_def)
  have dist': "distinct ((S # ps) @ us @ fs)" using dist by auto
  note mv = move_head [OF dp1 du1 df1 dist' h1S, simplified]
  have nd: "next sl \<noteq> 0 \<Longrightarrow> heap s (next sl) \<noteq> None"
    using dll_next_in [OF dp hS] dm by auto
  have nd1: "next sl \<noteq> 0 \<Longrightarrow> h1 (next sl) \<noteq> None" using nd by (simp add: h1_def)
  have ed1: "empty_slab s = 0 \<or> h1 (empty_slab s) \<noteq> None" using hds(3) by (auto simp: h1_def)
  show "cache_alloc reply s = Some (slot s S (unat (refcnt sl)), s')"
  proof (cases "next sl = 0")
    case True
    then show ?thesis
      using hd(1,2) hS eq inc ed1 h1S
      by (simp add: cache_alloc_def slot_ucast ucast_refcnt_eq insert_in_empty_list_eq'
          pop_heap_def s'_def h1_def [symmetric] Let_def)
  next
    case False
    with nd1 obtain y where "h1 (next sl) = Some y" by auto
    with False show ?thesis
      using hd(1,2) hS eq inc ed1 h1S
      by (simp add: cache_alloc_def slot_ucast ucast_refcnt_eq insert_in_empty_list_eq'
          pop_heap_def s'_def h1_def [symmetric] Let_def)
  qed
  have hp: "heap s' = push_heap (pop_heap h1 (next sl)) S (empty_slab s)" by (simp add: s'_def)
  have rc: "\<And>a. map_option refcnt (heap s' a) = map_option refcnt (h1 a)"
    unfolding hp by (rule mv(4))
  have dm': "dom (heap s') = dom (heap s)"
  proof -
    have "dom (heap s') = dom h1" using rc by (rule refcnt_dom)
    also have "\<dots> = dom (heap s)" using hS by (auto simp: h1_def)
    finally show ?thesis .
  qed
  have wf': "lists_wf s' fs ps (S # us)"
    unfolding lists_wf_def
  proof (intro conjI)
    show "dll (heap s') (complete_slab s') fs" using mv(3) by (simp add: s'_def)
    show "dll (heap s') (partially_slab s') ps" using mv(1) by (simp add: s'_def)
    show "dll (heap s') (empty_slab s') (S # us)" using mv(2) by (simp add: s'_def)
    show "distinct (fs @ ps @ S # us)" using dist by auto
    show "dom (heap s') = set (fs @ ps @ S # us)" using dm' dm by auto
  qed
  have iu': "\<And>a. in_use s' a = (if a = S then in_use s S + 1 else in_use s a)"
  proof -
    fix a
    have "in_use s' a = (case h1 a of None \<Rightarrow> 0 | Some x \<Rightarrow> unat (refcnt x))"
      using rc [of a] by (cases "h1 a"; cases "heap s' a") (auto simp: in_use_def)
    then show "in_use s' a = (if a = S then in_use s S + 1 else in_use s a)"
      using hS inc by (simp add: h1_def in_use_def)
  qed
  have so: "slab_objects s' = slab_objects s" by (simp add: s'_def)
  have occ': "occupancy_ok s' fs ps (S # us)"
    using occ so
  proof (rule occupancy_in_use_cong [where S = S])
    show "S \<in> set fs \<Longrightarrow> in_use s' S = 0" using dist by simp
    show "S \<in> set ps \<Longrightarrow> 0 < in_use s' S \<and> in_use s' S < unat (slab_objects s)"
      using dist by simp
    show "S \<in> set (S # us) \<Longrightarrow> 0 < in_use s' S \<and> in_use s' S \<le> unat (slab_objects s)"
      using iu' iu eq by simp
  qed (auto simp: iu')
  have "invariant s' (add_mset (slot s S (in_use s S), S) l) fs ps (S # us)"
    using inv wf' occ'
  proof (rule invariant_allocI)
    show "acquires s' = (if S \<in> dom (heap s) then acquires s else acquires s + 1)"
      using hS by (auto simp: s'_def)
    show "dom (heap s') = insert S (dom (heap s))" using hS dm' by auto
    show "base_aligned s S" using inv hS by (auto simp: invariant_def)
    show "in_use s S < unat (slab_objects s)" using lt iu by simp
    show "\<And>a. in_use s' a = (if a = S then in_use s S + 1 else in_use s a)" by (rule iu')
  qed (simp_all add: s'_def)
  then show "invariant s' (add_mset (slot s S (unat (refcnt sl)), S) l) fs ps (S # us)"
    using iu by simp
qed

lemma in_use_via_refcnt:
  assumes "\<And>a. map_option refcnt (heap s' a) = map_option refcnt (((heap s)(S \<mapsto> x)) a)"
  shows "in_use s' a = (if a = S then unat (refcnt x) else in_use s a)"
proof -
  have "in_use s' a = (case ((heap s)(S \<mapsto> x)) a of None \<Rightarrow> 0 | Some y \<Rightarrow> unat (refcnt y))"
    using assms [of a] by (cases "((heap s)(S \<mapsto> x)) a"; cases "heap s' a") (auto simp: in_use_def)
  then show ?thesis by (simp add: in_use_def)
qed

lemma alloc_existing_invariant:
  assumes inv: "invariant s l fs ps us" and hS: "heap s S = Some sl"
    and lt: "unat (refcnt sl) < unat (slab_objects s)"
    and rc: "\<And>a. map_option refcnt (heap s' a)
        = map_option refcnt (((heap s)(S \<mapsto> sl\<lparr>refcnt := refcnt sl + 1\<rparr>)) a)"
    and wf': "lists_wf s' fs' ps' us'"
    and geo: "object_size s' = object_size s" "slab_order s' = slab_order s"
      "slab_objects s' = slab_objects s"
    and cnt: "releases s' = releases s" "acquires s' = acquires s"
    and sub: "set fs' \<subseteq> set fs - {S}" "set ps' \<subseteq> insert S (set ps)" "set us' \<subseteq> insert S (set us)"
    and full: "S \<in> set ps' \<Longrightarrow> unat (refcnt sl) + 1 < unat (slab_objects s)"
  shows "invariant s' (add_mset (slot s S (unat (refcnt sl)), S) l) fs' ps' us'"
proof -
  from inv have g: "geometry_ok s" and occ: "occupancy_ok s fs ps us"
    by (simp_all add: invariant_def)
  have iu: "in_use s S = unat (refcnt sl)" using hS by (rule in_use_Some)
  have inc: "unat (refcnt sl + 1) = unat (refcnt sl) + 1" using g lt by (rule refcnt_inc_in_range)
  have iu': "\<And>a. in_use s' a = (if a = S then in_use s S + 1 else in_use s a)"
    using in_use_via_refcnt [of s' s S, OF rc] inc iu by simp
  have dm': "dom (heap s') = dom (heap s)"
  proof -
    have "dom (heap s') = dom ((heap s)(S \<mapsto> sl\<lparr>refcnt := refcnt sl + 1\<rparr>))"
      using rc by (rule refcnt_dom)
    also have "\<dots> = dom (heap s)" using hS by auto
    finally show ?thesis .
  qed
  have occ': "occupancy_ok s' fs' ps' us'"
    using occ geo(3)
  proof (rule occupancy_in_use_cong [where S = S])
    show "S \<in> set fs' \<Longrightarrow> in_use s' S = 0" using sub(1) by auto
    show "S \<in> set ps' \<Longrightarrow> 0 < in_use s' S \<and> in_use s' S < unat (slab_objects s)"
      using full iu' iu by simp
    show "S \<in> set us' \<Longrightarrow> 0 < in_use s' S \<and> in_use s' S \<le> unat (slab_objects s)"
      using iu' iu lt by simp
    show "set fs' \<subseteq> insert S (set fs)" using sub(1) by auto
  qed (use sub in \<open>auto simp: iu'\<close>)
  have "invariant s' (add_mset (slot s S (in_use s S), S) l) fs' ps' us'"
    using inv wf' occ' geo cnt(1)
  proof (rule invariant_allocI)
    show "acquires s' = (if S \<in> dom (heap s) then acquires s else acquires s + 1)"
      using hS cnt by auto
    show "dom (heap s') = insert S (dom (heap s))" using hS dm' by auto
    show "base_aligned s S" using inv hS by (auto simp: invariant_def)
    show "in_use s S < unat (slab_objects s)" using lt iu by simp
    show "\<And>a. in_use s' a = (if a = S then in_use s S + 1 else in_use s a)" by (rule iu')
  qed
  then show ?thesis using iu by simp
qed

lemma alloc_new_invariant:
  assumes inv: "invariant s l fs ps us" and hS: "heap s S = None" and al: "base_aligned s S"
    and rc: "\<And>a. map_option refcnt (heap s' a)
        = map_option refcnt (((heap s)(S \<mapsto> x\<lparr>refcnt := 1\<rparr>)) a)"
    and wf': "lists_wf s' fs' ps' us'"
    and geo: "object_size s' = object_size s" "slab_order s' = slab_order s"
      "slab_objects s' = slab_objects s"
    and cnt: "releases s' = releases s" "acquires s' = acquires s + 1"
    and sub: "set fs' \<subseteq> set fs" "set ps' \<subseteq> insert S (set ps)" "set us' \<subseteq> insert S (set us)"
    and full: "S \<in> set ps' \<Longrightarrow> 1 < unat (slab_objects s)"
  shows "invariant s' (add_mset (slot s S 0, S) l) fs' ps' us'"
proof -
  from inv have g: "geometry_ok s" and occ: "occupancy_ok s fs ps us"
    and wf: "lists_wf s fs ps us"
    by (simp_all add: invariant_def)
  have iu: "in_use s S = 0" using hS by (rule in_use_None)
  have Sn: "S \<notin> set fs" using wf hS by (auto simp: lists_wf_def)
  have pos: "0 < unat (slab_objects s)" using g by (simp add: geometry_ok_def)
  have iu': "\<And>a. in_use s' a = (if a = S then in_use s S + 1 else in_use s a)"
    using in_use_via_refcnt [of s' s S, OF rc] iu by simp
  have dm': "dom (heap s') = insert S (dom (heap s))"
  proof -
    have "dom (heap s') = dom ((heap s)(S \<mapsto> x\<lparr>refcnt := 1\<rparr>))"
      using rc by (rule refcnt_dom)
    then show ?thesis by simp
  qed
  have occ': "occupancy_ok s' fs' ps' us'"
    using occ geo(3)
  proof (rule occupancy_in_use_cong [where S = S])
    show "S \<in> set fs' \<Longrightarrow> in_use s' S = 0" using sub(1) Sn by auto
    show "S \<in> set ps' \<Longrightarrow> 0 < in_use s' S \<and> in_use s' S < unat (slab_objects s)"
      using full iu' iu by simp
    show "S \<in> set us' \<Longrightarrow> 0 < in_use s' S \<and> in_use s' S \<le> unat (slab_objects s)"
      using iu' iu pos by simp
    show "set fs' \<subseteq> insert S (set fs)" using sub(1) by auto
  qed (use sub in \<open>auto simp: iu'\<close>)
  have "invariant s' (add_mset (slot s S (in_use s S), S) l) fs' ps' us'"
    using inv wf' occ' geo cnt(1)
  proof (rule invariant_allocI)
    show "acquires s' = (if S \<in> dom (heap s) then acquires s else acquires s + 1)"
      using hS cnt by (auto simp: domIff)
    show "dom (heap s') = insert S (dom (heap s))" by (rule dm')
    show "base_aligned s S" by (rule al)
    show "in_use s S < unat (slab_objects s)" using pos iu by simp
    show "\<And>a. in_use s' a = (if a = S then in_use s S + 1 else in_use s a)" by (rule iu')
  qed
  then show ?thesis using iu by simp
qed

lemma inv_free_head:
  assumes "invariant s l (S # fs) ps us"
  shows "complete_slab s = S" and "S \<noteq> 0" and "heap s S \<noteq> None" and "in_use s S = 0"
  using assms by (auto simp: invariant_def lists_wf_def dll_Cons occupancy_ok_def)

lemma inv_partial_empty:
  assumes "invariant s l fs ps us" and "partially_slab s = 0"
  shows "ps = []"
  using assms by (auto simp: invariant_def lists_wf_def dll_null)

lemma inv_free_empty:
  assumes "invariant s l fs ps us" and "complete_slab s = 0"
  shows "fs = []"
  using assms by (auto simp: invariant_def lists_wf_def dll_null)

lemma slot_0: "S + sizeof_slabStruct = slot s S 0"
  by (simp add: slot_def)

lemma alloc_free_full:
  assumes inv: "invariant s l (S # fs) [] us" and hS: "heap s S = Some sl"
    and eq: "unat (slab_objects s) = 1"
  defines "h1 \<equiv> (heap s)(S \<mapsto> sl\<lparr>refcnt := refcnt sl + 1\<rparr>)"
  defines "s' \<equiv> s\<lparr>heap := push_heap (pop_heap h1 (next sl)) S (empty_slab s),
                    complete_slab := next sl, empty_slab := S\<rparr>"
  shows "cache_alloc reply s = Some (slot s S 0, s')"
    and "invariant s' (add_mset (slot s S 0, S) l) fs [] (S # us)"
proof -
  from inv have g: "geometry_ok s" and wf: "lists_wf s (S # fs) [] us"
    by (simp_all add: invariant_def)
  note hd = inv_free_head [OF inv]
  note hds = inv_heads_dom [OF inv]
  have iu: "unat (refcnt sl) = 0" using hd(4) hS by (simp add: in_use_def)
  have lt: "unat (refcnt sl) < unat (slab_objects s)" using iu eq by simp
  have inc: "unat (refcnt sl + 1) = unat (refcnt sl) + 1" using g lt by (rule refcnt_inc_in_range)
  from wf have dp: "dll (heap s) (partially_slab s) []" and df: "dll (heap s) (complete_slab s) (S # fs)"
    and du: "dll (heap s) (empty_slab s) us" and dist: "distinct ((S # fs) @ [] @ us)"
    and dm: "dom (heap s) = set ((S # fs) @ [] @ us)"
    by (simp_all add: lists_wf_def)
  from dp have p0: "partially_slab s = 0" by simp
  have h1S: "h1 S = Some (sl\<lparr>refcnt := refcnt sl + 1\<rparr>)" by (simp add: h1_def)
  have dp1: "dll h1 (partially_slab s) []" and df1: "dll h1 (complete_slab s) (S # fs)"
    and du1: "dll h1 (empty_slab s) us"
    using dp df du hS by (simp_all add: h1_def)
  have dist': "distinct ((S # fs) @ us @ [])" using dist by auto
  note mv = move_head [OF df1 du1 dp1 dist' h1S, simplified]
  have nin: "next sl \<noteq> 0 \<Longrightarrow> next sl \<in> set fs" using df hS by (rule dll_next_in)
  have nS: "next sl \<noteq> S" using nin dist hd(2) by auto
  have nd1: "next sl \<noteq> 0 \<Longrightarrow> h1 (next sl) \<noteq> None" using nin dm by (auto simp: h1_def)
  have ed1: "empty_slab s = 0 \<or> h1 (empty_slab s) \<noteq> None" using hds(3) by (auto simp: h1_def)
  show "cache_alloc reply s = Some (slot s S 0, s')"
  proof (cases "next sl = 0")
    case True
    then show ?thesis
      using hd(1,2) p0 hS eq inc iu ed1 h1S
      by (simp add: cache_alloc_def slot_0 ucast_refcnt_eq insert_in_empty_list_eq'
          pop_heap_def s'_def h1_def [symmetric] Let_def)
  next
    case False
    with nd1 obtain y where "h1 (next sl) = Some y" by auto
    with False show ?thesis
      using hd(1,2) p0 hS eq inc iu ed1 h1S nS
      by (simp add: cache_alloc_def slot_0 ucast_refcnt_eq insert_in_empty_list_eq'
          pop_heap_def s'_def h1_def [symmetric] Let_def)
  qed
  have hp: "heap s' = push_heap (pop_heap h1 (next sl)) S (empty_slab s)" by (simp add: s'_def)
  have rc: "\<And>a. map_option refcnt (heap s' a) = map_option refcnt (h1 a)"
    unfolding hp by (rule mv(4))
  have dm': "dom (heap s') = dom (heap s)"
  proof -
    have "dom (heap s') = dom h1" using rc by (rule refcnt_dom)
    also have "\<dots> = dom (heap s)" using hS by (auto simp: h1_def)
    finally show ?thesis .
  qed
  have wf': "lists_wf s' fs [] (S # us)"
    unfolding lists_wf_def
  proof (intro conjI)
    show "dll (heap s') (complete_slab s') fs" using mv(1) by (simp add: s'_def)
    show "dll (heap s') (partially_slab s') []" using p0 by (simp add: s'_def)
    show "dll (heap s') (empty_slab s') (S # us)" using mv(2) by (simp add: s'_def)
    show "distinct (fs @ [] @ S # us)" using dist by auto
    show "dom (heap s') = set (fs @ [] @ S # us)" using dm' dm by auto
  qed
  have "invariant s' (add_mset (slot s S (unat (refcnt sl)), S) l) fs [] (S # us)"
    using inv hS lt rc [unfolded h1_def] wf'
  proof (rule alloc_existing_invariant)
    show "set fs \<subseteq> set (S # fs) - {S}" using dist by auto
  qed (simp_all add: s'_def)
  then show "invariant s' (add_mset (slot s S 0, S) l) fs [] (S # us)" using iu by simp
qed

lemma alloc_free_partial:
  assumes inv: "invariant s l (S # fs) [] us" and hS: "heap s S = Some sl"
    and ne: "unat (slab_objects s) \<noteq> 1"
  defines "h1 \<equiv> (heap s)(S \<mapsto> sl\<lparr>refcnt := refcnt sl + 1\<rparr>)"
  defines "s' \<equiv> s\<lparr>heap := push_heap (pop_heap h1 (next sl)) S 0,
                    complete_slab := next sl, partially_slab := S\<rparr>"
  shows "cache_alloc reply s = Some (slot s S 0, s')"
    and "invariant s' (add_mset (slot s S 0, S) l) fs [S] us"
proof -
  from inv have g: "geometry_ok s" and wf: "lists_wf s (S # fs) [] us"
    by (simp_all add: invariant_def)
  note hd = inv_free_head [OF inv]
  have iu: "unat (refcnt sl) = 0" using hd(4) hS by (simp add: in_use_def)
  have gt: "1 < unat (slab_objects s)" using g ne by (simp add: geometry_ok_def)
  have lt: "unat (refcnt sl) < unat (slab_objects s)" using iu gt by simp
  have inc: "unat (refcnt sl + 1) = unat (refcnt sl) + 1" using g lt by (rule refcnt_inc_in_range)
  from wf have dp: "dll (heap s) (partially_slab s) []" and df: "dll (heap s) (complete_slab s) (S # fs)"
    and du: "dll (heap s) (empty_slab s) us" and dist: "distinct ((S # fs) @ [] @ us)"
    and dm: "dom (heap s) = set ((S # fs) @ [] @ us)"
    by (simp_all add: lists_wf_def)
  from dp have p0: "partially_slab s = 0" by simp
  have h1S: "h1 S = Some (sl\<lparr>refcnt := refcnt sl + 1\<rparr>)" by (simp add: h1_def)
  have dp1: "dll h1 0 []" and df1: "dll h1 (complete_slab s) (S # fs)"
    and du1: "dll h1 (empty_slab s) us"
    using df du hS by (simp_all add: h1_def)
  have dist': "distinct ((S # fs) @ [] @ us)" using dist by auto
  note mv = move_head [OF df1 dp1 du1 dist' h1S, simplified]
  have nin: "next sl \<noteq> 0 \<Longrightarrow> next sl \<in> set fs" using df hS by (rule dll_next_in)
  have nS: "next sl \<noteq> S" using nin dist hd(2) by auto
  have nd1: "next sl \<noteq> 0 \<Longrightarrow> h1 (next sl) \<noteq> None" using nin dm by (auto simp: h1_def)
  show "cache_alloc reply s = Some (slot s S 0, s')"
  proof (cases "next sl = 0")
    case True
    then show ?thesis
      using hd(1,2) p0 hS ne inc iu h1S
      by (simp add: cache_alloc_def slot_0 ucast_refcnt_eq insert_in_partially_list_eq'
          pop_heap_def s'_def h1_def [symmetric] Let_def)
  next
    case False
    with nd1 obtain y where "h1 (next sl) = Some y" by auto
    with False show ?thesis
      using hd(1,2) p0 hS ne inc iu h1S nS
      by (simp add: cache_alloc_def slot_0 ucast_refcnt_eq insert_in_partially_list_eq'
          pop_heap_def s'_def h1_def [symmetric] Let_def)
  qed
  have hp: "heap s' = push_heap (pop_heap h1 (next sl)) S 0" by (simp add: s'_def)
  have rc: "\<And>a. map_option refcnt (heap s' a) = map_option refcnt (h1 a)"
    unfolding hp by (rule mv(4))
  have dm': "dom (heap s') = dom (heap s)"
  proof -
    have "dom (heap s') = dom h1" using rc by (rule refcnt_dom)
    also have "\<dots> = dom (heap s)" using hS by (auto simp: h1_def)
    finally show ?thesis .
  qed
  have wf': "lists_wf s' fs [S] us"
    unfolding lists_wf_def
  proof (intro conjI)
    show "dll (heap s') (complete_slab s') fs" using mv(1) by (simp add: s'_def)
    show "dll (heap s') (partially_slab s') [S]" using mv(2) by (simp add: s'_def)
    show "dll (heap s') (empty_slab s') us" using mv(3) by (simp add: s'_def)
    show "distinct (fs @ [S] @ us)" using dist by auto
    show "dom (heap s') = set (fs @ [S] @ us)" using dm' dm by auto
  qed
  have "invariant s' (add_mset (slot s S (unat (refcnt sl)), S) l) fs [S] us"
    using inv hS lt rc [unfolded h1_def] wf'
  proof (rule alloc_existing_invariant)
    show "set fs \<subseteq> set (S # fs) - {S}" using dist by auto
    show "S \<in> set [S] \<Longrightarrow> unat (refcnt sl) + 1 < unat (slab_objects s)" using iu gt by simp
  qed (auto simp: s'_def)
  then show "invariant s' (add_mset (slot s S 0, S) l) fs [S] us" using iu by simp
qed

lemma dll_upd_notin [simp]: "a \<notin> set xs \<Longrightarrow> dll (h(a := v)) p xs = dll h p xs"
  by (simp add: dll_def)

lemma alloc_new_full:
  assumes inv: "invariant s l [] [] us" and vr: "valid_reply s (r, jk)"
    and eq: "unat (slab_objects s) = 1"
  defines "h1 \<equiv> (heap s)(r \<mapsto> jk\<lparr>refcnt := 1\<rparr>)"
  defines "s' \<equiv> s\<lparr>heap := push_heap h1 r (empty_slab s), empty_slab := r,
                    acquires := acquires s + 1\<rparr>"
  shows "cache_alloc (r, jk) s = Some (slot s r 0, s')"
    and "invariant s' (add_mset (slot s r 0, r) l) [] [] (r # us)"
proof -
  from inv have wf: "lists_wf s [] [] us" by (simp add: invariant_def)
  note hds = inv_heads_dom [OF inv]
  from vr have r0: "r \<noteq> 0" and hr: "heap s r = None" and al: "base_aligned s r"
    by (simp_all add: valid_reply_def)
  from wf have p0: "partially_slab s = 0" and f0: "complete_slab s = 0"
    and du: "dll (heap s) (empty_slab s) us" and dist: "distinct us"
    and dm: "dom (heap s) = set us"
    by (simp_all add: lists_wf_def)
  have rn: "r \<notin> set us" using hr dm by auto
  have h1r: "h1 r = Some (jk\<lparr>refcnt := 1\<rparr>)" by (simp add: h1_def)
  have ed1: "empty_slab s = 0 \<or> h1 (empty_slab s) \<noteq> None" using hds(3) by (auto simp: h1_def)
  have ed1': "empty_slab s \<noteq> 0 \<Longrightarrow> h1 (empty_slab s) \<noteq> None" using ed1 by auto
  have du1: "dll h1 (empty_slab s) us" using du rn by (simp add: h1_def)
  show "cache_alloc (r, jk) s = Some (slot s r 0, s')"
    using p0 f0 r0 eq ed1 h1r
    by (simp add: cache_alloc_def alloc_slab_def slot_0 ucast_refcnt_eq insert_in_empty_list_eq'
        s'_def h1_def [symmetric] Let_def)
  have rc: "\<And>a. map_option refcnt (heap s' a) = map_option refcnt (h1 a)"
    using push_heap_refcnt [of h1 r "empty_slab s"] h1r ed1' by (simp add: s'_def)
  have wf': "lists_wf s' [] [] (r # us)"
    unfolding lists_wf_def
  proof (intro conjI)
    show "dll (heap s') (complete_slab s') []" using f0 by (simp add: s'_def)
    show "dll (heap s') (partially_slab s') []" using p0 by (simp add: s'_def)
    have "dll (push_heap h1 r (empty_slab s)) r (r # us)"
      using du1 h1r r0 rn dist by (intro push_heap_dll) auto
    then show "dll (heap s') (empty_slab s') (r # us)" by (simp add: s'_def)
    show "distinct ([] @ [] @ r # us)" using dist rn by auto
    have "dom (heap s') = dom h1" using rc by (rule refcnt_dom)
    then show "dom (heap s') = set ([] @ [] @ r # us)" using dm by (simp add: h1_def)
  qed
  show "invariant s' (add_mset (slot s r 0, r) l) [] [] (r # us)"
    using inv hr al rc [unfolded h1_def] wf'
  proof (rule alloc_new_invariant)
    show "r \<in> set [] \<Longrightarrow> 1 < unat (slab_objects s)" by simp
  qed (auto simp: s'_def)
qed

lemma alloc_new_partial:
  assumes inv: "invariant s l [] [] us" and vr: "valid_reply s (r, jk)"
    and ne: "unat (slab_objects s) \<noteq> 1"
  defines "h1 \<equiv> (heap s)(r \<mapsto> jk\<lparr>refcnt := 1\<rparr>)"
  defines "s' \<equiv> s\<lparr>heap := push_heap h1 r 0, partially_slab := r,
                    acquires := acquires s + 1\<rparr>"
  shows "cache_alloc (r, jk) s = Some (slot s r 0, s')"
    and "invariant s' (add_mset (slot s r 0, r) l) [] [r] us"
proof -
  from inv have wf: "lists_wf s [] [] us" and g: "geometry_ok s" by (simp_all add: invariant_def)
  have gt: "1 < unat (slab_objects s)" using g ne by (simp add: geometry_ok_def)
  from vr have r0: "r \<noteq> 0" and hr: "heap s r = None" and al: "base_aligned s r"
    by (simp_all add: valid_reply_def)
  from wf have p0: "partially_slab s = 0" and f0: "complete_slab s = 0"
    and du: "dll (heap s) (empty_slab s) us" and dist: "distinct us"
    and dm: "dom (heap s) = set us"
    by (simp_all add: lists_wf_def)
  have rn: "r \<notin> set us" using hr dm by auto
  have h1r: "h1 r = Some (jk\<lparr>refcnt := 1\<rparr>)" by (simp add: h1_def)
  have du1: "dll h1 (empty_slab s) us" using du rn by (simp add: h1_def)
  show "cache_alloc (r, jk) s = Some (slot s r 0, s')"
    using p0 f0 r0 ne h1r
    by (simp add: cache_alloc_def alloc_slab_def slot_0 ucast_refcnt_eq
        insert_in_partially_list_eq' s'_def h1_def [symmetric] Let_def)
  have rc: "\<And>a. map_option refcnt (heap s' a) = map_option refcnt (h1 a)"
    using push_heap_refcnt [of h1 r 0] h1r by (simp add: s'_def)
  have wf': "lists_wf s' [] [r] us"
    unfolding lists_wf_def
  proof (intro conjI)
    show "dll (heap s') (complete_slab s') []" using f0 by (simp add: s'_def)
    have "dll (push_heap h1 r 0) r (r # [])"
      using h1r r0 by (intro push_heap_dll) auto
    then show "dll (heap s') (partially_slab s') [r]" by (simp add: s'_def)
    have "dll (push_heap h1 r 0) (empty_slab s) us"
      using du1 rn by (intro push_dll_other) auto
    then show "dll (heap s') (empty_slab s') us" by (simp add: s'_def)
    show "distinct ([] @ [r] @ us)" using dist rn by auto
    have "dom (heap s') = dom h1" using rc by (rule refcnt_dom)
    then show "dom (heap s') = set ([] @ [r] @ us)" using dm by (simp add: h1_def)
  qed
  show "invariant s' (add_mset (slot s r 0, r) l) [] [r] us"
    using inv hr al rc [unfolded h1_def] wf'
  proof (rule alloc_new_invariant)
    show "r \<in> set [r] \<Longrightarrow> 1 < unat (slab_objects s)" using gt by simp
  qed (auto simp: s'_def)
qed

section \<open>Release of an object\<close>

lemma unlink_dll_other:
  assumes "dll h pz ws" and "h S = Some sl" and "S \<notin> set ws"
    and "previous sl \<noteq> 0 \<Longrightarrow> previous sl \<notin> set ws"
    and "next sl \<noteq> 0 \<Longrightarrow> next sl \<notin> set ws"
  shows "dll (unlink_heap h S) pz ws"
proof -
  have z: "0 \<notin> set ws" using dll_dom [OF assms(1)] by simp
  have "\<And>a. a \<in> set ws \<Longrightarrow> unlink_heap h S a = h a"
  proof -
    fix a assume a: "a \<in> set ws"
    have "a \<noteq> S" using a assms(3) by auto
    moreover have "a \<noteq> previous sl" using a assms(4) z by (cases "previous sl = 0") auto
    moreover have "a \<noteq> next sl" using a assms(5) z by (cases "next sl = 0") auto
    ultimately show "unlink_heap h S a = h a"
      using assms(2) unlink_heap_outside [of a S h sl] by simp
  qed
  then have "dll (unlink_heap h S) pz ws = dll h pz ws" by (rule dll_agree)
  then show ?thesis using assms(1) by simp
qed

lemma dll_mid:
  assumes "dll h px (ys @ S # zs)" and "h S = Some sl"
  shows "previous sl = last (0 # ys)" and "next sl \<noteq> 0 \<Longrightarrow> next sl \<in> set zs"
    and "0 \<notin> set ys" and "S \<noteq> 0"
proof -
  from assms(1) obtain sl' where "h S = Some sl'" and "previous sl' = last (0 # ys)"
    and s1: "dll_seg h 0 px ys S" and s2: "dll_seg h S (next sl') zs 0" and "S \<noteq> 0"
    by (rule dll_split)
  with assms(2) show "previous sl = last (0 # ys)" and "S \<noteq> 0" by simp_all
  from s1 show "0 \<notin> set ys" by (simp add: dll_seg_dom)
  from s2 \<open>h S = Some sl'\<close> assms(2) show "next sl \<noteq> 0 \<Longrightarrow> next sl \<in> set zs"
    by (cases zs) auto
qed

lemma unlink_move:
  assumes x: "dll h px (ys @ S # zs)" and y: "dll h py fs" and z: "dll h pz ws"
    and dist: "distinct ((ys @ S # zs) @ fs @ ws)" and hS: "h S = Some sl"
  defines "h' \<equiv> push_heap (unlink_heap h S) S py"
  shows "dll h' (if ys = [] then next sl else px) (ys @ zs)" and "dll h' S (S # fs)"
    and "dll h' pz ws"
    and "\<And>a. map_option refcnt (h' a) = map_option refcnt (h a)"
    and "previous sl = 0 \<longleftrightarrow> ys = []"
proof -
  let ?h1 = "unlink_heap h S"
  note mid = dll_mid [OF x hS]
  have xd: "set (ys @ S # zs) \<subseteq> dom h" using dll_dom [OF x] by simp
  show pv0: "previous sl = 0 \<longleftrightarrow> ys = []"
  proof (cases "ys = []")
    case True
    then show ?thesis using mid(1) by simp
  next
    case False
    then have "last ys \<in> set ys" by simp
    then have "last ys \<noteq> 0" using mid(3) by metis
    then show ?thesis using mid(1) False by simp
  qed
  have pin: "previous sl \<noteq> 0 \<Longrightarrow> previous sl \<in> set ys"
    using mid(1) pv0 by (cases "ys = []") auto
  have pd: "previous sl \<noteq> 0 \<Longrightarrow> h (previous sl) \<noteq> None" using pin xd by auto
  have nd: "next sl \<noteq> 0 \<Longrightarrow> h (next sl) \<noteq> None" using mid(2) xd by auto
  have pyin: "py \<noteq> 0 \<Longrightarrow> py \<in> set fs" using y by (rule dll_head_in)
  have pyd: "py \<noteq> 0 \<Longrightarrow> h py \<noteq> None" using y by (rule dll_head_dom)
  have r1: "\<And>a. map_option refcnt (?h1 a) = map_option refcnt (h a)"
    using hS pd nd by (rule unlink_heap_refcnt)
  have S1: "?h1 S \<noteq> None" using refcnt_None_iff [of ?h1 S h] r1 hS by simp
  have pyd1: "py \<noteq> 0 \<Longrightarrow> ?h1 py \<noteq> None" using refcnt_None_iff [of ?h1 py h] r1 pyd by simp
  have x1: "dll ?h1 (if ys = [] then next sl else px) (ys @ zs)"
    using x _ hS by (rule unlink_heap_dll) (use dist in auto)
  have y1: "dll ?h1 py fs"
    using y hS by (rule unlink_dll_other) (use dist pin mid(2) in auto)
  have z1: "dll ?h1 pz ws"
    using z hS by (rule unlink_dll_other) (use dist pin mid(2) in auto)
  show "dll h' (if ys = [] then next sl else px) (ys @ zs)"
    unfolding h'_def using x1 by (rule push_dll_other) (use dist pyin in auto)
  show "dll h' S (S # fs)"
    unfolding h'_def using y1 S1 mid(4) by (rule push_heap_dll) (use dist in auto)
  show "dll h' pz ws"
    unfolding h'_def using z1 by (rule push_dll_other) (use dist pyin in auto)
  show "\<And>a. map_option refcnt (h' a) = map_option refcnt (h a)"
  proof -
    fix a
    have "map_option refcnt (push_heap ?h1 S py a) = map_option refcnt (?h1 a)"
      using S1 pyd1 by (rule push_heap_refcnt)
    then show "map_option refcnt (h' a) = map_option refcnt (h a)"
      unfolding h'_def using r1 [of a] by (rule trans)
  qed
qed

lemma slab_start_slot:
  assumes g: "geometry_ok s" and al: "base_aligned s S" and k: "k < unat (slab_objects s)"
  shows "calculate_slab_start s (slot s S k) = S"
proof -
  from g have z: "0 < unat (object_size s)"
    and le: "24 + unat (slab_objects s) * unat (object_size s) \<le> 4096 * 2 ^ slab_order s"
    and o: "slab_order s \<le> 10"
    by (simp_all add: geometry_ok_def)
  have "Suc k \<le> unat (slab_objects s)" using k by simp
  then have "Suc k * unat (object_size s) \<le> unat (slab_objects s) * unat (object_size s)"
    by (rule mult_le_mono1)
  then have "unat (object_size s) * k + unat (object_size s)
      \<le> unat (slab_objects s) * unat (object_size s)"
    by (simp add: ac_simps)
  with z le have lt: "24 + unat (object_size s) * k < 4096 * 2 ^ slab_order s" by linarith
  have p: "(4096::nat) * 2 ^ slab_order s = 2 ^ (slab_order s + 12)" by (simp add: power_add)
  have "(2::nat) ^ (slab_order s + 12) \<le> 2 ^ 22" using o by (intro power_increasing) simp_all
  then have "(2::nat) ^ (slab_order s + 12) < 2 ^ 64" by simp
  then have b: "24 + unat (object_size s) * k < 2 ^ 64" using lt p by linarith
  have u: "unat (24 + object_size s * of_nat k) = 24 + unat (object_size s) * k"
    using b z by (rule unat_off)
  have "unat (24 + object_size s * of_nat k) < 2 ^ (slab_order s + 12)"
    using u lt p by simp
  with al have "(S + (24 + object_size s * of_nat k))
      AND NOT (push_bit (slab_order s + 12) 1 - 1) = S"
    unfolding base_aligned_def by (rule mask_off)
  then show ?thesis
    by (simp add: calculate_slab_start_def slot_def sizeof_slabStruct_def ac_simps)
qed

lemma free_facts:
  assumes inv: "invariant s l fs ps us" and e: "(p, S) \<in># l"
  shows "calculate_slab_start s p = S" and "heap s S \<noteq> None" and "0 < in_use s S"
    and "S \<notin> set fs" and "S \<in> set ps \<union> set us"
proof -
  from inv have g: "geometry_ok s" and a: "\<forall>a \<in> dom (heap s). base_aligned s a"
    and lv: "live_ok s l" and c: "counted s l" and occ: "occupancy_ok s fs ps us"
    and wf: "lists_wf s fs ps us"
    by (simp_all add: invariant_def)
  from lv e have "snd (p, S) \<in> dom (heap s)
      \<and> (\<exists>k<unat (slab_objects s). fst (p, S) = slot s (snd (p, S)) k)"
    unfolding live_ok_def by (rule bspec)
  then obtain k where d: "S \<in> dom (heap s)" and k: "k < unat (slab_objects s)"
    and p: "p = slot s S k"
    by auto
  from a d have "base_aligned s S" by simp
  with g show "calculate_slab_start s p = S" unfolding p using k by (rule slab_start_slot)
  from d show "heap s S \<noteq> None" by auto
  have "(p, S) \<in># filter_mset (\<lambda>e. snd e = S) l" using e by simp
  then have "0 < size (filter_mset (\<lambda>e. snd e = S) l)"
    by (metis size_eq_0_iff_empty empty_iff set_mset_empty gr0I)
  then show pos: "0 < in_use s S" using c d by (simp add: counted_def)
  from pos occ show "S \<notin> set fs" by (auto simp: occupancy_ok_def)
  then show "S \<in> set ps \<union> set us" using d wf by (auto simp: lists_wf_def)
qed

lemma free_invariant:
  assumes inv: "invariant s l fs ps us" and e: "(p, S) \<in># l" and hS: "heap s S = Some sl"
    and rc: "\<And>a. map_option refcnt (heap s' a)
        = map_option refcnt (((heap s)(S \<mapsto> sl\<lparr>refcnt := refcnt sl - 1\<rparr>)) a)"
    and wf': "lists_wf s' fs' ps' us'"
    and geo: "object_size s' = object_size s" "slab_order s' = slab_order s"
      "slab_objects s' = slab_objects s"
    and cnt: "releases s' = releases s" "acquires s' = acquires s"
    and sub: "set fs' \<subseteq> insert S (set fs)" "set ps' \<subseteq> set ps" "set us' \<subseteq> set us"
    and zero: "S \<in> set fs' \<Longrightarrow> unat (refcnt sl) = 1"
    and nonzero: "S \<in> set ps' \<union> set us' \<Longrightarrow> unat (refcnt sl) \<noteq> 1"
  shows "invariant s' (l - {#(p, S)#}) fs' ps' us'"
proof -
  from inv have occ: "occupancy_ok s fs ps us" by (simp add: invariant_def)
  note ff = free_facts [OF inv e]
  have iu: "in_use s S = unat (refcnt sl)" using hS by (rule in_use_Some)
  have pos: "0 < unat (refcnt sl)" using ff(3) iu by simp
  have dec: "unat (refcnt sl - 1) = unat (refcnt sl) - 1" using pos by (rule unat_refcnt_dec)
  have iu': "\<And>a. in_use s' a = (if a = S then in_use s S - 1 else in_use s a)"
    using in_use_via_refcnt [of s' s S, OF rc] dec iu by simp
  have dm': "dom (heap s') = dom (heap s)"
  proof -
    have "dom (heap s') = dom ((heap s)(S \<mapsto> sl\<lparr>refcnt := refcnt sl - 1\<rparr>))"
      using rc by (rule refcnt_dom)
    also have "\<dots> = dom (heap s)" using hS by auto
    finally show ?thesis .
  qed
  have occ': "occupancy_ok s' fs' ps' us'"
    using occ geo(3)
  proof (rule occupancy_in_use_cong [where S = S])
    show "S \<in> set fs' \<Longrightarrow> in_use s' S = 0" using zero iu' iu by simp
    show "S \<in> set ps' \<Longrightarrow> 0 < in_use s' S \<and> in_use s' S < unat (slab_objects s)"
    proof -
      assume a: "S \<in> set ps'"
      then have "S \<in> set ps" using sub(2) by auto
      then have "in_use s S < unat (slab_objects s)" using occ by (simp add: occupancy_ok_def)
      then show ?thesis using nonzero a pos iu iu' by simp
    qed
    show "S \<in> set us' \<Longrightarrow> 0 < in_use s' S \<and> in_use s' S \<le> unat (slab_objects s)"
    proof -
      assume a: "S \<in> set us'"
      then have "S \<in> set us" using sub(3) by auto
      then have "in_use s S \<le> unat (slab_objects s)" using occ by (simp add: occupancy_ok_def)
      then show ?thesis using nonzero a pos iu iu' by simp
    qed
  qed (use sub in \<open>auto simp: iu'\<close>)
  show ?thesis
    using inv wf' occ' geo cnt dm' e iu' by (rule invariant_freeI)
qed

lemma free_stay:
  assumes inv: "invariant s l fs ps us" and e: "(p, S) \<in># l" and hS: "heap s S = Some sl"
    and ne: "unat (refcnt sl) \<noteq> 1"
  defines "s' \<equiv> s\<lparr>heap := (heap s)(S \<mapsto> sl\<lparr>refcnt := refcnt sl - 1\<rparr>)\<rparr>"
  shows "cache_free p s = Some s'" and "invariant s' (l - {#(p, S)#}) fs ps us"
proof -
  note ff = free_facts [OF inv e]
  have iu: "in_use s S = unat (refcnt sl)" using hS by (rule in_use_Some)
  have pos: "0 < unat (refcnt sl)" using ff(3) iu by simp
  have dec: "unat (refcnt sl - 1) = unat (refcnt sl) - 1" using pos by (rule unat_refcnt_dec)
  have nz: "refcnt sl - 1 \<noteq> 0"
  proof
    assume "refcnt sl - 1 = 0"
    then have "unat (refcnt sl - 1) = 0" by simp
    then show False using dec pos ne by simp
  qed
  show "cache_free p s = Some s'"
    using ff(1) hS nz by (simp add: cache_free_def s'_def)
  from inv have wf: "lists_wf s fs ps us" by (simp add: invariant_def)
  have wf': "lists_wf s' fs ps us" using wf hS by (auto simp: lists_wf_def s'_def)
  show "invariant s' (l - {#(p, S)#}) fs ps us"
    using inv e hS _ wf'
  proof (rule free_invariant)
    show "S \<in> set fs \<Longrightarrow> unat (refcnt sl) = 1" using ff(4) by simp
    show "S \<in> set ps \<union> set us \<Longrightarrow> unat (refcnt sl) \<noteq> 1" using ne by simp
  qed (auto simp: s'_def)
qed

lemma free_zero_partial:
  assumes inv: "invariant s l fs (ys @ S # zs) us" and e: "(p, S) \<in># l"
    and hS: "heap s S = Some sl" and eq: "unat (refcnt sl) = 1"
  defines "h1 \<equiv> (heap s)(S \<mapsto> sl\<lparr>refcnt := refcnt sl - 1\<rparr>)"
  defines "s' \<equiv> s\<lparr>heap := push_heap (unlink_heap h1 S) S (complete_slab s),
                    complete_slab := S,
                    partially_slab := (if ys = [] then next sl else partially_slab s)\<rparr>"
  shows "cache_free p s = Some s'" and "invariant s' (l - {#(p, S)#}) (S # fs) (ys @ zs) us"
proof -
  note ff = free_facts [OF inv e]
  note hds = inv_heads_dom [OF inv]
  from inv have wf: "lists_wf s fs (ys @ S # zs) us" by (simp add: invariant_def)
  from wf have dp: "dll (heap s) (partially_slab s) (ys @ S # zs)"
    and df: "dll (heap s) (complete_slab s) fs"
    and du: "dll (heap s) (empty_slab s) us" and dist: "distinct (fs @ (ys @ S # zs) @ us)"
    and dm: "dom (heap s) = set (fs @ (ys @ S # zs) @ us)"
    by (simp_all add: lists_wf_def)
  define sl1 where "sl1 = sl\<lparr>refcnt := refcnt sl - 1\<rparr>"
  have h1S: "h1 S = Some sl1" by (simp add: h1_def sl1_def)
  have links: "previous sl1 = previous sl" "next sl1 = next sl" by (simp_all add: sl1_def)
  have dec: "unat (refcnt sl - 1) = unat (refcnt sl) - 1" using eq by (intro unat_refcnt_dec) simp
  have zero: "refcnt sl1 = 0" using dec eq by (simp add: sl1_def unat_eq_0 [symmetric])
  have dp1: "dll h1 (partially_slab s) (ys @ S # zs)" and df1: "dll h1 (complete_slab s) fs"
    and du1: "dll h1 (empty_slab s) us"
    using dp df du hS by (simp_all add: h1_def)
  have dist': "distinct ((ys @ S # zs) @ fs @ us)" using dist by auto
  note mv = unlink_move [OF dp1 df1 du1 dist' h1S, unfolded links]
  note mid = dll_mid [OF dp hS]
  have S0: "S \<noteq> 0" by (rule mid(4))
  have eS: "empty_slab s \<noteq> S"
  proof
    assume "empty_slab s = S"
    then have "S \<in> set us" using dll_head_in [OF du] S0 by simp
    then show False using dist by auto
  qed
  have ph: "ys = [] \<Longrightarrow> partially_slab s = S" using dll_head [OF dp] by simp
  have xd: "set (ys @ S # zs) \<subseteq> dom h1" using dll_dom [OF dp1] by simp
  have pin: "previous sl \<noteq> 0 \<Longrightarrow> previous sl \<in> set ys"
    using mid(1) mv(5) by (cases "ys = []") auto
  have pd: "previous sl1 \<noteq> 0 \<Longrightarrow> h1 (previous sl1) \<noteq> None"
    unfolding links using pin xd by auto
  have nd: "next sl1 \<noteq> 0 \<Longrightarrow> h1 (next sl1) \<noteq> None"
    unfolding links using mid(2) xd by auto
  define s2 where "s2 = s\<lparr>heap := unlink_heap h1 S,
      partially_slab := (if ys = [] then next sl else partially_slab s)\<rparr>"
  have r: "remove_from_empty_list S (s\<lparr>heap := h1\<rparr>) = Some s2"
    using remove_from_empty_list_eq [of "s\<lparr>heap := h1\<rparr>" S sl1] h1S pd nd eS ph mv(5) links
    by (auto simp: s2_def)
  have rc1: "\<And>a. map_option refcnt (unlink_heap h1 S a) = map_option refcnt (h1 a)"
    using h1S pd nd by (rule unlink_heap_refcnt)
  have c2: "heap s2 S \<noteq> None"
    using refcnt_None_iff [of "unlink_heap h1 S" S h1] rc1 h1S by (simp add: s2_def)
  have c3: "complete_slab s2 = 0 \<or> heap s2 (complete_slab s2) \<noteq> None"
    using refcnt_None_iff [of "unlink_heap h1 S" "complete_slab s" h1] rc1 hds(1)
    by (auto simp: s2_def h1_def)
  have i: "insert_in_complete_list S s2 = Some s'"
    using insert_in_complete_list_eq' [OF c2 c3] by (simp add: s2_def s'_def)
  have h1': "(heap s)(S \<mapsto> sl\<lparr>refcnt := 0\<rparr>) = h1" using zero by (simp add: h1_def sl1_def)
  show "cache_free p s = Some s'"
    using ff(1) hS r i zero
    by (simp add: cache_free_def h1' sl1_def)
  have hp: "heap s' = push_heap (unlink_heap h1 S) S (complete_slab s)" by (simp add: s'_def)
  have rc: "\<And>a. map_option refcnt (heap s' a) = map_option refcnt (h1 a)"
    unfolding hp by (rule mv(4))
  have dm': "dom (heap s') = dom (heap s)"
  proof -
    have "dom (heap s') = dom h1" using rc by (rule refcnt_dom)
    also have "\<dots> = dom (heap s)" using hS by (auto simp: h1_def)
    finally show ?thesis .
  qed
  have wf': "lists_wf s' (S # fs) (ys @ zs) us"
    unfolding lists_wf_def
  proof (intro conjI)
    show "dll (heap s') (complete_slab s') (S # fs)" using mv(2) by (simp add: s'_def)
    show "dll (heap s') (partially_slab s') (ys @ zs)" using mv(1) by (simp add: s'_def)
    show "dll (heap s') (empty_slab s') us" using mv(3) by (simp add: s'_def)
    show "distinct ((S # fs) @ (ys @ zs) @ us)" using dist by auto
    show "dom (heap s') = set ((S # fs) @ (ys @ zs) @ us)" using dm' dm by auto
  qed
  show "invariant s' (l - {#(p, S)#}) (S # fs) (ys @ zs) us"
    using inv e hS rc [unfolded h1_def] wf'
  proof (rule free_invariant)
    show "S \<in> set (S # fs) \<Longrightarrow> unat (refcnt sl) = 1" using eq by simp
    show "S \<in> set (ys @ zs) \<union> set us \<Longrightarrow> unat (refcnt sl) \<noteq> 1" using dist by auto
  qed (auto simp: s'_def)
qed

lemma free_zero_full:
  assumes inv: "invariant s l fs ps (ys @ S # zs)" and e: "(p, S) \<in># l"
    and hS: "heap s S = Some sl" and eq: "unat (refcnt sl) = 1"
  defines "h1 \<equiv> (heap s)(S \<mapsto> sl\<lparr>refcnt := refcnt sl - 1\<rparr>)"
  defines "s' \<equiv> s\<lparr>heap := push_heap (unlink_heap h1 S) S (complete_slab s),
                    complete_slab := S,
                    empty_slab := (if ys = [] then next sl else empty_slab s)\<rparr>"
  shows "cache_free p s = Some s'" and "invariant s' (l - {#(p, S)#}) (S # fs) ps (ys @ zs)"
proof -
  note ff = free_facts [OF inv e]
  note hds = inv_heads_dom [OF inv]
  from inv have wf: "lists_wf s fs ps (ys @ S # zs)" by (simp add: invariant_def)
  from wf have dp: "dll (heap s) (partially_slab s) ps"
    and df: "dll (heap s) (complete_slab s) fs"
    and du: "dll (heap s) (empty_slab s) (ys @ S # zs)"
    and dist: "distinct (fs @ ps @ (ys @ S # zs))"
    and dm: "dom (heap s) = set (fs @ ps @ (ys @ S # zs))"
    by (simp_all add: lists_wf_def)
  define sl1 where "sl1 = sl\<lparr>refcnt := refcnt sl - 1\<rparr>"
  have h1S: "h1 S = Some sl1" by (simp add: h1_def sl1_def)
  have links: "previous sl1 = previous sl" "next sl1 = next sl" by (simp_all add: sl1_def)
  have dec: "unat (refcnt sl - 1) = unat (refcnt sl) - 1" using eq by (intro unat_refcnt_dec) simp
  have zero: "refcnt sl1 = 0" using dec eq by (simp add: sl1_def unat_eq_0 [symmetric])
  have dp1: "dll h1 (partially_slab s) ps" and df1: "dll h1 (complete_slab s) fs"
    and du1: "dll h1 (empty_slab s) (ys @ S # zs)"
    using dp df du hS by (simp_all add: h1_def)
  have dist': "distinct ((ys @ S # zs) @ fs @ ps)" using dist by auto
  note mv = unlink_move [OF du1 df1 dp1 dist' h1S, unfolded links]
  note mid = dll_mid [OF du hS]
  have S0: "S \<noteq> 0" by (rule mid(4))
  have eh: "ys = [] \<Longrightarrow> empty_slab s = S" using dll_head [OF du] by simp
  have xd: "set (ys @ S # zs) \<subseteq> dom h1" using dll_dom [OF du1] by simp
  have pin: "previous sl \<noteq> 0 \<Longrightarrow> previous sl \<in> set ys"
    using mid(1) mv(5) by (cases "ys = []") auto
  have pd: "previous sl1 \<noteq> 0 \<Longrightarrow> h1 (previous sl1) \<noteq> None"
    unfolding links using pin xd by auto
  have nd: "next sl1 \<noteq> 0 \<Longrightarrow> h1 (next sl1) \<noteq> None"
    unfolding links using mid(2) xd by auto
  define s2 where "s2 = s\<lparr>heap := unlink_heap h1 S,
      empty_slab := (if ys = [] then next sl else empty_slab s)\<rparr>"
  have r: "remove_from_empty_list S (s\<lparr>heap := h1\<rparr>) = Some s2"
    using remove_from_empty_list_eq [of "s\<lparr>heap := h1\<rparr>" S sl1] h1S pd nd eh mv(5) links
    by (auto simp: s2_def)
  have rc1: "\<And>a. map_option refcnt (unlink_heap h1 S a) = map_option refcnt (h1 a)"
    using h1S pd nd by (rule unlink_heap_refcnt)
  have c2: "heap s2 S \<noteq> None"
    using refcnt_None_iff [of "unlink_heap h1 S" S h1] rc1 h1S by (simp add: s2_def)
  have c3: "complete_slab s2 = 0 \<or> heap s2 (complete_slab s2) \<noteq> None"
    using refcnt_None_iff [of "unlink_heap h1 S" "complete_slab s" h1] rc1 hds(1)
    by (auto simp: s2_def h1_def)
  have i: "insert_in_complete_list S s2 = Some s'"
    using insert_in_complete_list_eq' [OF c2 c3] by (simp add: s2_def s'_def)
  have h1': "(heap s)(S \<mapsto> sl\<lparr>refcnt := 0\<rparr>) = h1" using zero by (simp add: h1_def sl1_def)
  show "cache_free p s = Some s'"
    using ff(1) hS r i zero
    by (simp add: cache_free_def h1' sl1_def)
  have hp: "heap s' = push_heap (unlink_heap h1 S) S (complete_slab s)" by (simp add: s'_def)
  have rc: "\<And>a. map_option refcnt (heap s' a) = map_option refcnt (h1 a)"
    unfolding hp by (rule mv(4))
  have dm': "dom (heap s') = dom (heap s)"
  proof -
    have "dom (heap s') = dom h1" using rc by (rule refcnt_dom)
    also have "\<dots> = dom (heap s)" using hS by (auto simp: h1_def)
    finally show ?thesis .
  qed
  have wf': "lists_wf s' (S # fs) ps (ys @ zs)"
    unfolding lists_wf_def
  proof (intro conjI)
    show "dll (heap s') (complete_slab s') (S # fs)" using mv(2) by (simp add: s'_def)
    show "dll (heap s') (partially_slab s') ps" using mv(3) by (simp add: s'_def)
    show "dll (heap s') (empty_slab s') (ys @ zs)" using mv(1) by (simp add: s'_def)
    show "distinct ((S # fs) @ ps @ (ys @ zs))" using dist by auto
    show "dom (heap s') = set ((S # fs) @ ps @ (ys @ zs))" using dm' dm by auto
  qed
  show "invariant s' (l - {#(p, S)#}) (S # fs) ps (ys @ zs)"
    using inv e hS rc [unfolded h1_def] wf'
  proof (rule free_invariant)
    show "S \<in> set (S # fs) \<Longrightarrow> unat (refcnt sl) = 1" using eq by simp
    show "S \<in> set ps \<union> set (ys @ zs) \<Longrightarrow> unat (refcnt sl) \<noteq> 1" using dist by auto
  qed (auto simp: s'_def)
qed

section \<open>Shrink, release and setup\<close>

lemma dll_restrict:
  assumes "dll h p xs" and "set xs \<inter> A = {}"
  shows "dll (h |` (- A)) p xs"
proof -
  have "\<And>a. a \<in> set xs \<Longrightarrow> (h |` (- A)) a = h a" using assms(2) by (auto simp: restrict_map_def)
  then have "dll (h |` (- A)) p xs = dll h p xs" by (rule dll_agree)
  then show ?thesis using assms(1) by simp
qed

lemma free_list_dll':
  assumes "dll (heap s) p xs" and "distinct xs"
  shows "free_list p s = Some (s\<lparr>heap := heap s |` (- set xs), releases := releases s + length xs\<rparr>)"
  using assms unfolding dll_def by (rule free_list_dll)

lemma in_use_restrict:
  "a \<notin> A \<Longrightarrow> heap s' = heap s |` (- A) \<Longrightarrow> in_use s' a = in_use s a"
  by (simp add: in_use_def restrict_map_def)

lemma live_slab_in_use:
  assumes "counted s l" and "live_ok s l" and "e \<in># l"
  shows "0 < in_use s (snd e)"
proof -
  from assms(2,3) have d: "snd e \<in> dom (heap s)" by (auto simp: live_ok_def)
  have "e \<in># filter_mset (\<lambda>x. snd x = snd e) l" using assms(3) by simp
  then have "0 < size (filter_mset (\<lambda>x. snd x = snd e) l)"
    by (metis size_eq_0_iff_empty empty_iff set_mset_empty gr0I)
  then show ?thesis using assms(1) d by (simp add: counted_def)
qed

lemma shrink_invariant:
  assumes inv: "invariant s l fs ps us"
  defines "s' \<equiv> s\<lparr>heap := heap s |` (- set fs), releases := releases s + length fs,
                    complete_slab := 0\<rparr>"
  shows "cache_shrink s = Some s'" and "invariant s' l [] ps us"
proof -
  from inv have g: "geometry_ok s" and a: "\<forall>a \<in> dom (heap s). base_aligned s a"
    and lv: "live_ok s l" and c: "counted s l" and occ: "occupancy_ok s fs ps us"
    and wf: "lists_wf s fs ps us" and b: "balanced s"
    by (simp_all add: invariant_def)
  from wf have dp: "dll (heap s) (partially_slab s) ps"
    and df: "dll (heap s) (complete_slab s) fs"
    and du: "dll (heap s) (empty_slab s) us" and dist: "distinct (fs @ ps @ us)"
    and dm: "dom (heap s) = set (fs @ ps @ us)"
    by (simp_all add: lists_wf_def)
  have fl: "free_list (complete_slab s) s
      = Some (s\<lparr>heap := heap s |` (- set fs), releases := releases s + length fs\<rparr>)"
    using df dist by (intro free_list_dll') auto
  show "cache_shrink s = Some s'" using fl by (simp add: cache_shrink_def s'_def)
  have hp: "heap s' = heap s |` (- set fs)" by (simp add: s'_def)
  have dm': "dom (heap s') = set ps \<union> set us" using dm dist by (auto simp: hp)
  have wf': "lists_wf s' [] ps us"
    unfolding lists_wf_def
  proof (intro conjI)
    show "dll (heap s') (complete_slab s') []" by (simp add: s'_def)
    have "dll (heap s |` (- set fs)) (partially_slab s) ps" using dp by (rule dll_restrict) (use dist in auto)
    then show "dll (heap s') (partially_slab s') ps" by (simp add: s'_def)
    have "dll (heap s |` (- set fs)) (empty_slab s) us" using du by (rule dll_restrict) (use dist in auto)
    then show "dll (heap s') (empty_slab s') us" by (simp add: s'_def)
    show "distinct ([] @ ps @ us)" using dist by simp
    show "dom (heap s') = set ([] @ ps @ us)" using dm' by simp
  qed
  have iu: "\<And>a. a \<notin> set fs \<Longrightarrow> in_use s' a = in_use s a"
    using hp by (simp add: in_use_restrict)
  have so: "slab_objects s' = slab_objects s" by (simp add: s'_def)
  have iu2: "\<And>a. a \<in> set ps \<union> set us \<Longrightarrow> in_use s' a = in_use s a"
  proof -
    fix a assume "a \<in> set ps \<union> set us"
    then have "a \<notin> set fs" using dist by auto
    then show "in_use s' a = in_use s a" by (rule iu)
  qed
  have occ': "occupancy_ok s' [] ps us"
    using occ unfolding occupancy_ok_def so by (simp add: iu2)
  have g': "geometry_ok s'" using g by (simp add: geometry_ok_def s'_def)
  have a': "\<forall>a \<in> dom (heap s'). base_aligned s' a"
    using a dm dm' by (auto simp: base_aligned_def s'_def)
  have nf: "\<And>e. e \<in># l \<Longrightarrow> snd e \<notin> set fs"
  proof -
    fix e assume "e \<in># l"
    then have "0 < in_use s (snd e)" using c lv by (intro live_slab_in_use)
    then show "snd e \<notin> set fs" using occ by (auto simp: occupancy_ok_def)
  qed
  have lv': "live_ok s' l"
    unfolding live_ok_def
  proof
    fix e assume e: "e \<in># l"
    then have "snd e \<in> dom (heap s) \<and> (\<exists>k<unat (slab_objects s). fst e = slot s (snd e) k)"
      using lv by (simp add: live_ok_def)
    moreover have "snd e \<notin> set fs" using e by (rule nf)
    ultimately show "snd e \<in> dom (heap s') \<and> (\<exists>k<unat (slab_objects s'). fst e = slot s' (snd e) k)"
      using dm dm' by (auto simp: s'_def slot_def)
  qed
  have c': "counted s' l"
    unfolding counted_def
  proof
    fix a assume "a \<in> dom (heap s')"
    then have "a \<notin> set fs" and "a \<in> dom (heap s)" using dm' dm dist by auto
    then show "in_use s' a = size (filter_mset (\<lambda>e. snd e = a) l)"
      using c iu by (simp add: counted_def)
  qed
  have "card (dom (heap s)) = length fs + card (dom (heap s'))"
  proof -
    have "dom (heap s) = set fs \<union> dom (heap s')" using dm dm' by auto
    moreover have "set fs \<inter> dom (heap s') = {}" using dm' dist by auto
    ultimately have "card (dom (heap s)) = card (set fs) + card (dom (heap s'))"
      by (simp add: card_Un_disjoint)
    moreover have "card (set fs) = length fs" using dist by (simp add: distinct_card)
    ultimately show ?thesis by simp
  qed
  then have b': "balanced s'" using b by (simp add: balanced_def s'_def)
  show "invariant s' l [] ps us"
    using wf' occ' g' a' lv' c' b' by (simp add: invariant_def)
qed

lemma release_invariant:
  assumes inv: "invariant s l fs ps us"
  defines "s' \<equiv> s\<lparr>heap := Map.empty,
                    releases := releases s + length fs + length ps + length us,
                    complete_slab := 0, partially_slab := 0, empty_slab := 0\<rparr>"
  shows "cache_release s = Some s'" and "invariant s' {#} [] [] []"
proof -
  from inv have g: "geometry_ok s" and wf: "lists_wf s fs ps us" and b: "balanced s"
    by (simp_all add: invariant_def)
  from wf have dp: "dll (heap s) (partially_slab s) ps"
    and df: "dll (heap s) (complete_slab s) fs"
    and du: "dll (heap s) (empty_slab s) us" and dist: "distinct (fs @ ps @ us)"
    and dm: "dom (heap s) = set (fs @ ps @ us)"
    by (simp_all add: lists_wf_def)
  define s1 where "s1 = s\<lparr>heap := heap s |` (- set fs), releases := releases s + length fs\<rparr>"
  define s2 where "s2 = s1\<lparr>heap := heap s1 |` (- set ps), releases := releases s1 + length ps\<rparr>"
  define s3 where "s3 = s2\<lparr>heap := heap s2 |` (- set us), releases := releases s2 + length us\<rparr>"
  have f1: "free_list (complete_slab s) s = Some s1"
    unfolding s1_def using df dist by (intro free_list_dll') auto
  have "dll (heap s |` (- set fs)) (partially_slab s) ps"
    using dp by (rule dll_restrict) (use dist in auto)
  then have "dll (heap s1) (partially_slab s1) ps" by (simp add: s1_def)
  then have f2: "free_list (partially_slab s1) s1 = Some s2"
    unfolding s2_def using dist by (intro free_list_dll') auto
  have "dll (heap s |` (- set fs) |` (- set ps)) (empty_slab s) us"
    using du dist by (intro dll_restrict) auto
  then have "dll (heap s2) (empty_slab s2) us" by (simp add: s1_def s2_def)
  then have f3: "free_list (empty_slab s2) s2 = Some s3"
    unfolding s3_def using dist by (intro free_list_dll') auto
  have "heap s3 = heap s |` (- set fs) |` (- set ps) |` (- set us)"
    by (simp add: s1_def s2_def s3_def)
  also have "\<dots> = Map.empty"
  proof
    fix a
    show "(heap s |` (- set fs) |` (- set ps) |` (- set us)) a = None"
      using dm by (cases "heap s a") (auto simp: restrict_map_def dom_def)
  qed
  finally have h3: "heap s3 = Map.empty" .
  have e: "s3\<lparr>complete_slab := 0, partially_slab := 0, empty_slab := 0\<rparr> = s'"
    using h3 by (simp add: s1_def s2_def s3_def s'_def)
  show "cache_release s = Some s'"
    using f1 f2 f3 e by (simp add: cache_release_def)
  have "card (dom (heap s)) = length (fs @ ps @ us)"
    unfolding dm using dist by (rule distinct_card)
  then have b': "balanced s'" using b by (simp add: balanced_def s'_def)
  have g': "geometry_ok s'" using g by (simp add: geometry_ok_def s'_def)
  show "invariant s' {#} [] [] []"
    using b' g'
    by (simp add: invariant_def lists_wf_def occupancy_ok_def live_ok_def counted_def s'_def)
qed

lemma unat_24_plus:
  assumes "unat (n :: 64 word) + 24 < 2 ^ 22"
  shows "unat (sizeof_slabStruct + n) = 24 + unat n"
proof -
  have "unat (24 :: 64 word) + unat n < 2 ^ 64" using assms by simp
  then show ?thesis using unat_add_lem [of 24 n] by (simp add: sizeof_slabStruct_def)
qed

lemma setup_invariant:
  assumes he: "heap s = Map.empty" and ar: "acquires s = releases s"
    and v: "valid_object_size n"
  shows "\<exists>s'. cache_setup n s = Some s' \<and> invariant s' {#} [] [] []"
proof -
  from v have pos: "0 < unat n" and fit: "unat n + 24 < 2 ^ 22"
    by (simp_all add: valid_object_size_def)
  have n0: "n \<noteq> 0" using pos by auto
  let ?x = "sizeof_slabStruct + n"
  let ?o = "smallest_power_of_two (?x div 4096)"
  have ux: "unat ?x = 24 + unat n" using fit by (rule unat_24_plus)
  have "unat ?x < 4096 * 2 ^ 10" using ux fit by simp
  then have o10: "?o \<le> 10" by (rule order_least)
  have fits: "unat ?x < 4096 * 2 ^ ?o" by (rule order_fits)
  define s0 where "s0 = s\<lparr>complete_slab := 0, partially_slab := 0, empty_slab := 0,
      object_size := n, slab_order := ?o\<rparr>"
  define s' where "s' = (if 0 < ?o then s0\<lparr>slab_objects := 1\<rparr>
      else s0\<lparr>slab_objects := (4096 - sizeof_slabStruct) div n\<rparr>)"
  have eq: "cache_setup n s = Some s'"
    using n0 by (simp add: cache_setup_def Let_def s'_def s0_def)
  have geo: "geometry_ok s'"
  proof (cases "0 < ?o")
    case True
    then show ?thesis using o10 pos fits ux
      by (simp add: geometry_ok_def s'_def s0_def)
  next
    case False
    then have "unat ?x < 4096" using fits by simp
    then have lt: "unat n < 4072" using ux by simp
    have "unat ((4096 - sizeof_slabStruct) div n) = 4072 div unat n"
      by (simp add: unat_div sizeof_slabStruct_def)
    moreover have "0 < 4072 div unat n" using lt pos by (simp add: div_greater_zero_iff)
    moreover have "4072 div unat n * unat n \<le> 4072" by simp
    ultimately show ?thesis using False pos
      by (simp add: geometry_ok_def s'_def s0_def)
  qed
  have hs: "heap s' = Map.empty" "complete_slab s' = 0" "partially_slab s' = 0" "empty_slab s' = 0"
    "acquires s' = acquires s" "releases s' = releases s"
    using he by (simp_all add: s'_def s0_def)
  have "invariant s' {#} [] [] []"
    using geo hs ar
    by (simp add: invariant_def lists_wf_def occupancy_ok_def live_ok_def counted_def
        balanced_def)
  with eq show ?thesis by blast
qed

section \<open>The invariant holds in every reachable state\<close>

lemma cache_alloc_invariant:
  assumes inv: "invariant s l fs ps us"
    and vr: "partially_slab s = 0 \<and> complete_slab s = 0 \<longrightarrow> valid_reply s reply"
  shows "\<exists>p s' fs' ps' us'. cache_alloc reply s = Some (p, s')
    \<and> invariant s' (add_mset (p, alloc_source reply s) l) fs' ps' us'"
proof (cases ps)
  case (Cons S ps')
  note hd = inv_partial_head [OF inv [unfolded Cons]]
  from hd(3) obtain sl where hS: "heap s S = Some sl" by auto
  have src: "alloc_source reply s = S" using hd(1,2) by (simp add: alloc_source_def)
  show ?thesis
  proof (cases "unat (refcnt sl) + 1 = unat (slab_objects s)")
    case True
    show ?thesis
      using alloc_partial_full [OF inv [unfolded Cons] hS True] src by metis
  next
    case False
    show ?thesis
      using alloc_partial_stay [OF inv [unfolded Cons] hS False] src by metis
  qed
next
  case Nil
  from inv Nil have p0: "partially_slab s = 0" by (simp add: invariant_def lists_wf_def)
  show ?thesis
  proof (cases fs)
    case (Cons S fs')
    note hd = inv_free_head [OF inv [unfolded Cons]]
    from hd(3) obtain sl where hS: "heap s S = Some sl" by auto
    have src: "alloc_source reply s = S" using hd(1,2) p0 by (simp add: alloc_source_def)
    show ?thesis
    proof (cases "unat (slab_objects s) = 1")
      case True
      show ?thesis
        using alloc_free_full [OF inv [unfolded Cons Nil] hS True] src by metis
    next
      case False
      show ?thesis
        using alloc_free_partial [OF inv [unfolded Cons Nil] hS False] src by metis
    qed
  next
    case fNil: Nil
    from inv fNil have f0: "complete_slab s = 0" by (simp add: invariant_def lists_wf_def)
    obtain r jk where rp: "reply = (r, jk)" by (cases reply)
    have v: "valid_reply s (r, jk)" using vr p0 f0 rp by simp
    have src: "alloc_source reply s = r" using p0 f0 rp by (simp add: alloc_source_def)
    show ?thesis
    proof (cases "unat (slab_objects s) = 1")
      case True
      show ?thesis
        using alloc_new_full [OF inv [unfolded fNil Nil] v True] src rp by metis
    next
      case False
      show ?thesis
        using alloc_new_partial [OF inv [unfolded fNil Nil] v False] src rp by metis
    qed
  qed
qed

lemma cache_free_invariant:
  assumes inv: "invariant s l fs ps us" and e: "(p, S) \<in># l"
  shows "\<exists>s' fs' ps' us'. cache_free p s = Some s'
    \<and> invariant s' (l - {#(p, S)#}) fs' ps' us'"
proof -
  note ff = free_facts [OF inv e]
  from ff(2) obtain sl where hS: "heap s S = Some sl" by auto
  show ?thesis
  proof (cases "unat (refcnt sl) = 1")
    case False
    show ?thesis using free_stay [OF inv e hS False] by metis
  next
    case True
    from ff(5) consider "S \<in> set ps" | "S \<in> set us" by auto
    then show ?thesis
    proof cases
      case 1
      then obtain ys zs where "ps = ys @ S # zs" by (auto simp: in_set_conv_decomp)
      then show ?thesis using free_zero_partial [OF _ e hS True, of fs ys zs us] inv by metis
    next
      case 2
      then obtain ys zs where "us = ys @ S # zs" by (auto simp: in_set_conv_decomp)
      then show ?thesis using free_zero_full [OF _ e hS True, of fs ps ys zs] inv by metis
    qed
  qed
qed

lemma reach_invariant: "reach s l \<Longrightarrow> \<exists>fs ps us. invariant s l fs ps us"
proof (induction rule: reach.induct)
  case (reach_setup s n s')
  then show ?case using setup_invariant [of s n] by auto
next
  case (reach_alloc s l reply p s')
  then obtain fs ps us where inv: "invariant s l fs ps us" by auto
  from cache_alloc_invariant [OF inv reach_alloc(2)] reach_alloc(3)
  show ?case by auto
next
  case (reach_free s l p a s')
  then obtain fs ps us where inv: "invariant s l fs ps us" by auto
  from cache_free_invariant [OF inv reach_free(2)] reach_free(3)
  show ?case by auto
next
  case (reach_shrink s l s')
  then obtain fs ps us where inv: "invariant s l fs ps us" by auto
  from shrink_invariant [OF inv] reach_shrink(2)
  show ?case by auto
next
  case (reach_release s l s')
  then obtain fs ps us where inv: "invariant s l fs ps us" by auto
  from release_invariant [OF inv] reach_release(2)
  show ?case by auto
qed

section \<open>Slot offsets and the geometry chosen by setup\<close>

lemma slot_offset_bound:
  assumes g: "geometry_ok s" and k: "k < unat (slab_objects s)"
  shows "unat (slot s a k - a) < 4096 * 2 ^ slab_order s"
proof -
  from g have z: "0 < unat (object_size s)"
    and le: "24 + unat (slab_objects s) * unat (object_size s) \<le> 4096 * 2 ^ slab_order s"
    and o: "slab_order s \<le> 10"
    by (simp_all add: geometry_ok_def)
  have "Suc k \<le> unat (slab_objects s)" using k by simp
  then have "Suc k * unat (object_size s) \<le> unat (slab_objects s) * unat (object_size s)"
    by (rule mult_le_mono1)
  then have "unat (object_size s) * k + unat (object_size s)
      \<le> unat (slab_objects s) * unat (object_size s)"
    by (simp add: ac_simps)
  with z le have lt: "24 + unat (object_size s) * k < 4096 * 2 ^ slab_order s" by linarith
  have "(2::nat) ^ slab_order s \<le> 2 ^ 10" using o by (intro power_increasing) simp_all
  then have "4096 * (2::nat) ^ slab_order s < 2 ^ 64" by simp
  then have b: "24 + unat (object_size s) * k < 2 ^ 64" using lt by linarith
  have u: "unat (24 + object_size s * of_nat k) = 24 + unat (object_size s) * k"
    using b z by (rule unat_off)
  have "slot s a k - a = 24 + object_size s * of_nat k"
    by (simp add: slot_def sizeof_slabStruct_def)
  then show ?thesis using u lt by simp
qed

lemma setup_geometry:
  assumes v: "valid_object_size n"
  shows "\<exists>s'. cache_setup n s = Some s' \<and> geometry_ok s'"
proof -
  from v have pos: "0 < unat n" and fit: "unat n + 24 < 2 ^ 22"
    by (simp_all add: valid_object_size_def)
  have n0: "n \<noteq> 0" using pos by auto
  let ?x = "sizeof_slabStruct + n"
  let ?o = "smallest_power_of_two (?x div 4096)"
  have ux: "unat ?x = 24 + unat n" using fit by (rule unat_24_plus)
  have "unat ?x < 4096 * 2 ^ 10" using ux fit by simp
  then have o10: "?o \<le> 10" by (rule order_least)
  have fits: "unat ?x < 4096 * 2 ^ ?o" by (rule order_fits)
  define s0 where "s0 = s\<lparr>complete_slab := 0, partially_slab := 0, empty_slab := 0,
      object_size := n, slab_order := ?o\<rparr>"
  define s' where "s' = (if 0 < ?o then s0\<lparr>slab_objects := 1\<rparr>
      else s0\<lparr>slab_objects := (4096 - sizeof_slabStruct) div n\<rparr>)"
  have eq: "cache_setup n s = Some s'"
    using n0 by (simp add: cache_setup_def Let_def s'_def s0_def)
  have geo: "geometry_ok s'"
  proof (cases "0 < ?o")
    case True
    then show ?thesis using o10 pos fits ux
      by (simp add: geometry_ok_def s'_def s0_def)
  next
    case False
    then have "unat ?x < 4096" using fits by simp
    then have lt: "unat n < 4072" using ux by simp
    have "unat ((4096 - sizeof_slabStruct) div n) = 4072 div unat n"
      by (simp add: unat_div sizeof_slabStruct_def)
    moreover have "0 < 4072 div unat n" using lt pos by (simp add: div_greater_zero_iff)
    moreover have "4072 div unat n * unat n \<le> 4072" by simp
    ultimately show ?thesis using False pos
      by (simp add: geometry_ok_def s'_def s0_def)
  qed
  with eq show ?thesis by blast
qed

lemma setup_fields:
  assumes "cache_setup n s = Some s'"
  shows "complete_slab s' = 0" and "partially_slab s' = 0" and "empty_slab s' = 0"
    and "object_size s' = n"
    and "slab_order s' = smallest_power_of_two ((sizeof_slabStruct + n) div 4096)"
    and "heap s' = heap s" and "acquires s' = acquires s" and "releases s' = releases s"
  using assms by (auto simp: cache_setup_def Let_def split: if_splits)

lemma setup_Some: "n \<noteq> 0 \<Longrightarrow> \<exists>s'. cache_setup n s = Some s'"
  by (simp add: cache_setup_def Let_def)

text \<open>
  The order \<open>cache_setup\<close> computes, for an object size whose sum with the header size does
  not wrap around: the smallest order whose slab is strictly larger than the sum.
\<close>

lemma setup_order_strict:
  assumes "0 < unat objsz" and "unat objsz + 24 < 2 ^ 64"
  shows "\<exists>s'. cache_setup objsz s = Some s'
    \<and> 24 + unat objsz < 4096 * 2 ^ slab_order s'
    \<and> (\<forall>k. 24 + unat objsz < 4096 * 2 ^ k \<longrightarrow> slab_order s' \<le> k)
    \<and> (slab_order s' = 0 \<longleftrightarrow> 24 + unat objsz < 4096)"
proof -
  have n0: "objsz \<noteq> 0" using assms(1) by auto
  then obtain s' where eq: "cache_setup objsz s = Some s'" using setup_Some by blast
  let ?x = "sizeof_slabStruct + objsz"
  have so: "slab_order s' = smallest_power_of_two (?x div 4096)" using eq by (rule setup_fields)
  have "unat (24 :: 64 word) + unat objsz < 2 ^ 64" using assms(2) by simp
  then have ux: "unat ?x = 24 + unat objsz"
    using unat_add_lem [of 24 objsz] by (simp add: sizeof_slabStruct_def)
  have fits: "24 + unat objsz < 4096 * 2 ^ slab_order s'"
    using order_fits [of ?x] ux so by simp
  have least: "\<And>k. 24 + unat objsz < 4096 * 2 ^ k \<Longrightarrow> slab_order s' \<le> k"
    using order_least [of ?x] ux so by simp
  have z: "slab_order s' = 0 \<longleftrightarrow> 24 + unat objsz < 4096"
    using fits least [of 0] by auto
  show ?thesis
  proof (intro exI [of _ s'] conjI allI impI)
    show "cache_setup objsz s = Some s'" by (rule eq)
    show "24 + unat objsz < 4096 * 2 ^ slab_order s'" by (rule fits)
    show "\<And>k. 24 + unat objsz < 4096 * 2 ^ k \<Longrightarrow> slab_order s' \<le> k" by (rule least)
    show "slab_order s' = 0 \<longleftrightarrow> 24 + unat objsz < 4096" by (rule z)
  qed
qed

section \<open>The concrete run is reachable\<close>

lemma ex1_val: "ex1 = world0\<lparr>object_size := 2036, slab_objects := 2\<rparr>"
  by (simp add: ex1_def eval_defs)

lemma ex1_step: "cache_setup 2036 world0 = Some ex1"
  by (simp add: ex1_val) (simp add: eval_defs)

lemma ex2_val: "ex2 = world0\<lparr>object_size := 2036, slab_objects := 2, partially_slab := 4096,
   heap := [4096 \<mapsto> \<lparr>previous = 0, next = 0, refcnt = 1\<rparr>], acquires := 1\<rparr>"
  by (simp add: ex2_def ex1_val eval_defs)

lemma ex2_step: "cache_alloc (4096, junk) ex1 = Some (4120, ex2)"
  by (simp add: ex2_val ex1_val) (simp add: eval_defs)

lemma ex3_val: "ex3 = world0\<lparr>object_size := 2036, slab_objects := 2, empty_slab := 4096,
   heap := [4096 \<mapsto> \<lparr>previous = 0, next = 0, refcnt = 2\<rparr>], acquires := 1\<rparr>"
  by (simp add: ex3_def ex2_val eval_defs)

lemma ex3_step: "cache_alloc (0, junk) ex2 = Some (6156, ex3)"
  by (simp add: ex3_val ex2_val) (simp add: eval_defs)

lemma ex4_val: "ex4 = world0\<lparr>object_size := 2036, slab_objects := 2, empty_slab := 4096,
   partially_slab := 8192,
   heap := [4096 \<mapsto> \<lparr>previous = 0, next = 0, refcnt = 2\<rparr>,
            8192 \<mapsto> \<lparr>previous = 0, next = 0, refcnt = 1\<rparr>], acquires := 2\<rparr>"
  by (simp add: ex4_def ex3_val eval_defs)

lemma ex4_step: "cache_alloc (8192, junk) ex3 = Some (8216, ex4)"
  by (simp add: ex4_val ex3_val) (simp add: eval_defs)

lemma ex5_val: "ex5 = world0\<lparr>object_size := 2036, slab_objects := 2, empty_slab := 4096,
   complete_slab := 8192,
   heap := [4096 \<mapsto> \<lparr>previous = 0, next = 0, refcnt = 2\<rparr>,
            8192 \<mapsto> \<lparr>previous = 0, next = 0, refcnt = 0\<rparr>], acquires := 2\<rparr>"
  by (simp add: ex5_def ex4_val eval_defs)

lemma ex5_step: "cache_free 8216 ex4 = Some ex5"
  by (simp add: ex5_val ex4_val) (simp add: eval_defs)

lemma reach_ex5: "reach ex5 ex_live"
proof -
  have r1: "reach ex1 {#}"
    by (rule reach_setup [OF _ _ _ ex1_step]) (simp_all add: world0_def valid_object_size_def)
  have "reach ex2 (add_mset (4120, alloc_source (4096, junk) ex1) {#})"
    by (rule reach_alloc [OF r1 _ ex2_step])
      (simp add: valid_reply_def base_aligned_def ex1_val world0_def)
  then have r2: "reach ex2 {#(4120, 4096)#}"
    by (simp add: alloc_source_def ex1_val world0_def)
  have "reach ex3 (add_mset (6156, alloc_source (0, junk) ex2) {#(4120, 4096)#})"
    by (rule reach_alloc [OF r2 _ ex3_step]) (simp add: ex2_val world0_def)
  then have r3: "reach ex3 {#(6156, 4096), (4120, 4096)#}"
    by (simp add: alloc_source_def ex2_val world0_def)
  have "reach ex4 (add_mset (8216, alloc_source (8192, junk) ex3) {#(6156, 4096), (4120, 4096)#})"
    by (rule reach_alloc [OF r3 _ ex4_step])
      (simp add: valid_reply_def base_aligned_def ex3_val world0_def)
  then have r4: "reach ex4 {#(8216, 8192), (6156, 4096), (4120, 4096)#}"
    by (simp add: alloc_source_def ex3_val world0_def)
  have "reach ex5 ({#(8216, 8192), (6156, 4096), (4120, 4096)#} - {#(8216, 8192)#})"
    by (rule reach_free [OF r4 _ ex5_step]) simp
  then show ?thesis by (simp add: ex_live_def)
qed

section \<open>Occupancy, and allocation followed by release\<close>

text \<open>
  What the lists say about occupancy in every reachable state: a slab of the free list
  has no object in use, a slab of the partial list has some but not all, and a slab of the
  full list has at least one (\<open>occupancy_ok\<close>). An allocation followed by the release of
  its pointer restores the three list heads, unless it took the last slot of a partial
  slab; after the creation of a slab the new slab is the free list.
\<close>

lemma reach_occupancy:
  assumes "reach s l"
  shows "\<exists>fs ps us. lists_wf s fs ps us \<and> occupancy_ok s fs ps us"
  using reach_invariant [OF assms] by (auto simp: invariant_def)

lemma dll_Cons_next:
  assumes "dll h p (x # xs)" and "h x = Some sl" and "dll h' q xs"
  shows "next sl = q"
proof -
  from assms(1,2) have "dll_seg h x (next sl) xs 0" by (simp add: dll_Cons)
  then have "next sl = (case xs of [] \<Rightarrow> 0 | y # _ \<Rightarrow> y)" by (cases xs) auto
  moreover have "q = (case xs of [] \<Rightarrow> 0 | y # _ \<Rightarrow> y)" using assms(3) by (rule dll_head)
  ultimately show ?thesis by simp
qed

lemma roundtrip_partial_stay:
  assumes inv: "invariant s l fs (S # ps) us" and hS: "heap s S = Some sl"
    and ne: "unat (refcnt sl) + 1 \<noteq> unat (slab_objects s)"
    and a: "cache_alloc reply s = Some (p, s1)"
  shows "cache_free p s1 = Some s"
proof -
  let ?sl1 = "sl\<lparr>refcnt := refcnt sl + 1\<rparr>"
  let ?s1 = "s\<lparr>heap := (heap s)(S \<mapsto> ?sl1)\<rparr>"
  note st = alloc_partial_stay [OF inv hS ne]
  from st(1) [of reply] a have p: "p = slot s S (unat (refcnt sl))" and s1: "s1 = ?s1" by simp_all
  note hd = inv_partial_head [OF inv]
  from inv have g: "geometry_ok s" by (simp add: invariant_def)
  have iu: "in_use s S = unat (refcnt sl)" using hS by (rule in_use_Some)
  have lt: "unat (refcnt sl) < unat (slab_objects s)" using hd(5) iu by simp
  have inc: "unat (refcnt sl + 1) = unat (refcnt sl) + 1" using g lt by (rule refcnt_inc_in_range)
  have e: "(p, S) \<in># add_mset (slot s S (unat (refcnt sl)), S) l" using p by simp
  have h1: "heap ?s1 S = Some ?sl1" by simp
  have ne1: "unat (refcnt ?sl1) \<noteq> 1" using inc hd(4) iu by simp
  have "cache_free p ?s1 = Some (?s1\<lparr>heap := (heap ?s1)(S \<mapsto> ?sl1\<lparr>refcnt := refcnt ?sl1 - 1\<rparr>)\<rparr>)"
    using st(2) e h1 ne1 by (rule free_stay(1))
  moreover have "(heap s)(S \<mapsto> sl) = heap s" using hS by (rule map_upd_triv)
  ultimately show ?thesis unfolding s1 by simp
qed

lemma roundtrip_free_slab:
  assumes inv: "invariant s l (S # fs) [] us" and hS: "heap s S = Some sl"
    and a: "cache_alloc reply s = Some (p, s1)"
  shows "\<exists>s2. cache_free p s1 = Some s2 \<and> complete_slab s2 = complete_slab s
    \<and> partially_slab s2 = partially_slab s \<and> empty_slab s2 = empty_slab s"
proof -
  note hd = inv_free_head [OF inv]
  from inv have p0: "partially_slab s = 0" and du: "dll (heap s) (empty_slab s) us"
    by (simp_all add: invariant_def lists_wf_def)
  have iu0: "unat (refcnt sl) = 0" using hd(4) hS by (simp add: in_use_def)
  from inv have g: "geometry_ok s" by (simp add: invariant_def)
  have inc: "unat (refcnt sl + 1) = 1"
    using refcnt_inc_in_range [OF g, of "refcnt sl"] iu0 g by (simp add: geometry_ok_def)
  show ?thesis
  proof (cases "unat (slab_objects s) = 1")
    case True
    note st = alloc_free_full [OF inv hS True]
    from st(1) [of reply] a have p: "p = slot s S 0" and s1: "s1 = s\<lparr>heap := push_heap
        (pop_heap ((heap s)(S \<mapsto> sl\<lparr>refcnt := refcnt sl + 1\<rparr>)) (next sl)) S (empty_slab s),
        complete_slab := next sl, empty_slab := S\<rparr>"
      by simp_all
    have inv1: "invariant s1 (add_mset (p, S) l) fs [] ([] @ S # us)"
      using st(2) p s1 by simp
    from inv1 have d1: "dll (heap s1) (empty_slab s1) (S # us)" and dm: "S \<in> dom (heap s1)"
      by (auto simp: invariant_def lists_wf_def)
    from dm obtain sl1 where h1: "heap s1 S = Some sl1" by auto
    have c1: "counted s1 (add_mset (p, S) l)" using inv1 by (simp add: invariant_def)
    have rc0: "size (filter_mset (\<lambda>e. snd e = S) l) = 0"
    proof -
      from inv have "counted s l" by (simp add: invariant_def)
      moreover have "S \<in> dom (heap s)" using hS by auto
      ultimately have "in_use s S = size (filter_mset (\<lambda>e. snd e = S) l)"
        by (simp add: counted_def)
      then show ?thesis using hd(4) by simp
    qed
    have "in_use s1 S = 1" using c1 dm rc0 by (simp add: counted_def)
    then have r1: "unat (refcnt sl1) = 1" using h1 by (simp add: in_use_def)
    have e: "(p, S) \<in># add_mset (p, S) l" by simp
    note fz = free_zero_full [OF inv1 e h1 r1]
    have nx: "next sl1 = empty_slab s" using d1 h1 du by (rule dll_Cons_next)
    show ?thesis using fz(1) nx hd(1) p0 by (simp add: s1)
  next
    case False
    note st = alloc_free_partial [OF inv hS False]
    from st(1) [of reply] a have p: "p = slot s S 0" and s1: "s1 = s\<lparr>heap := push_heap
        (pop_heap ((heap s)(S \<mapsto> sl\<lparr>refcnt := refcnt sl + 1\<rparr>)) (next sl)) S 0,
        complete_slab := next sl, partially_slab := S\<rparr>"
      by simp_all
    have inv1: "invariant s1 (add_mset (p, S) l) fs ([] @ S # []) us"
      using st(2) p s1 by simp
    from inv1 have d1: "dll (heap s1) (partially_slab s1) (S # [])" and dm: "S \<in> dom (heap s1)"
      by (auto simp: invariant_def lists_wf_def)
    from dm obtain sl1 where h1: "heap s1 S = Some sl1" by auto
    have c1: "counted s1 (add_mset (p, S) l)" using inv1 by (simp add: invariant_def)
    have rc0: "size (filter_mset (\<lambda>e. snd e = S) l) = 0"
    proof -
      from inv have "counted s l" by (simp add: invariant_def)
      moreover have "S \<in> dom (heap s)" using hS by auto
      ultimately have "in_use s S = size (filter_mset (\<lambda>e. snd e = S) l)"
        by (simp add: counted_def)
      then show ?thesis using hd(4) by simp
    qed
    have "in_use s1 S = 1" using c1 dm rc0 by (simp add: counted_def)
    then have r1: "unat (refcnt sl1) = 1" using h1 by (simp add: in_use_def)
    have e: "(p, S) \<in># add_mset (p, S) l" by simp
    note fz = free_zero_partial [OF inv1 e h1 r1]
    have "dll (heap s) 0 []" by simp
    with d1 h1 have nx: "next sl1 = 0" by (rule dll_Cons_next)
    show ?thesis using fz(1) nx hd(1) p0 by (simp add: s1)
  qed
qed

lemma roundtrip_new_slab:
  assumes inv: "invariant s l [] [] us" and vr: "valid_reply s (r, jk)"
    and a: "cache_alloc (r, jk) s = Some (p, s1)"
  shows "\<exists>s2. cache_free p s1 = Some s2 \<and> complete_slab s2 = r
    \<and> dll (heap s2) (complete_slab s2) [r]
    \<and> partially_slab s2 = partially_slab s \<and> empty_slab s2 = empty_slab s"
proof -
  from inv have p0: "partially_slab s = 0" and f0: "complete_slab s = 0"
    and du: "dll (heap s) (empty_slab s) us"
    by (simp_all add: invariant_def lists_wf_def)
  from vr have hr: "heap s r = None" by (simp add: valid_reply_def)
  have rc0: "size (filter_mset (\<lambda>e. snd e = r) l) = 0"
  proof -
    from inv have "live_ok s l" by (simp add: invariant_def)
    moreover have "r \<notin> dom (heap s)" using hr by (simp add: domIff)
    ultimately have "filter_mset (\<lambda>e. snd e = r) l = {#}" by (rule live_none)
    then show ?thesis by simp
  qed
  show ?thesis
  proof (cases "unat (slab_objects s) = 1")
    case True
    note st = alloc_new_full [OF inv vr True]
    from st(1) a have p: "p = slot s r 0" and s1: "s1 = s\<lparr>heap := push_heap
        ((heap s)(r \<mapsto> jk\<lparr>refcnt := 1\<rparr>)) r (empty_slab s), empty_slab := r,
        acquires := acquires s + 1\<rparr>"
      by simp_all
    have inv1: "invariant s1 (add_mset (p, r) l) [] [] ([] @ r # us)"
      using st(2) p s1 by simp
    from inv1 have d1: "dll (heap s1) (empty_slab s1) (r # us)" and dm: "r \<in> dom (heap s1)"
      by (auto simp: invariant_def lists_wf_def)
    from dm obtain sl1 where h1: "heap s1 r = Some sl1" by auto
    have c1: "counted s1 (add_mset (p, r) l)" using inv1 by (simp add: invariant_def)
    have "in_use s1 r = 1" using c1 dm rc0 by (simp add: counted_def)
    then have r1: "unat (refcnt sl1) = 1" using h1 by (simp add: in_use_def)
    have e: "(p, r) \<in># add_mset (p, r) l" by simp
    note fz = free_zero_full [OF inv1 e h1 r1]
    have nx: "next sl1 = empty_slab s" using d1 h1 du by (rule dll_Cons_next)
    from fz(2) have "dll (heap (the (cache_free p s1))) (complete_slab (the (cache_free p s1))) [r]"
      using fz(1) by (simp add: invariant_def lists_wf_def)
    then show ?thesis using fz(1) nx p0 f0 by (simp add: s1)
  next
    case False
    note st = alloc_new_partial [OF inv vr False]
    from st(1) a have p: "p = slot s r 0" and s1: "s1 = s\<lparr>heap := push_heap
        ((heap s)(r \<mapsto> jk\<lparr>refcnt := 1\<rparr>)) r 0, partially_slab := r,
        acquires := acquires s + 1\<rparr>"
      by simp_all
    have inv1: "invariant s1 (add_mset (p, r) l) [] ([] @ r # []) us"
      using st(2) p s1 by simp
    from inv1 have d1: "dll (heap s1) (partially_slab s1) (r # [])" and dm: "r \<in> dom (heap s1)"
      by (auto simp: invariant_def lists_wf_def)
    from dm obtain sl1 where h1: "heap s1 r = Some sl1" by auto
    have c1: "counted s1 (add_mset (p, r) l)" using inv1 by (simp add: invariant_def)
    have "in_use s1 r = 1" using c1 dm rc0 by (simp add: counted_def)
    then have r1: "unat (refcnt sl1) = 1" using h1 by (simp add: in_use_def)
    have e: "(p, r) \<in># add_mset (p, r) l" by simp
    note fz = free_zero_partial [OF inv1 e h1 r1]
    have "dll (heap s) 0 []" by simp
    with d1 h1 have nx: "next sl1 = 0" by (rule dll_Cons_next)
    from fz(2) have "dll (heap (the (cache_free p s1))) (complete_slab (the (cache_free p s1))) [r]"
      using fz(1) by (simp add: invariant_def lists_wf_def)
    then show ?thesis using fz(1) nx p0 f0 by (simp add: s1)
  qed
qed

lemma alloc_free_roundtrip:
  assumes r: "reach s l"
    and v: "partially_slab s = 0 \<and> complete_slab s = 0 \<longrightarrow> valid_reply s reply"
    and nf: "partially_slab s \<noteq> 0 \<longrightarrow> in_use s (partially_slab s) + 1 \<noteq> unat (slab_objects s)"
    and a: "cache_alloc reply s = Some (p, s1)"
  shows "\<exists>s2. cache_free p s1 = Some s2
    \<and> partially_slab s2 = partially_slab s \<and> empty_slab s2 = empty_slab s
    \<and> (if partially_slab s = 0 \<and> complete_slab s = 0
         then complete_slab s2 = fst reply \<and> dll (heap s2) (complete_slab s2) [fst reply]
         else complete_slab s2 = complete_slab s)"
proof -
  from r obtain fs ps us where inv: "invariant s l fs ps us" using reach_invariant by blast
  show ?thesis
  proof (cases ps)
    case (Cons S ps')
    note hd = inv_partial_head [OF inv [unfolded Cons]]
    from hd(3) obtain sl where hS: "heap s S = Some sl" by auto
    have "unat (refcnt sl) + 1 \<noteq> unat (slab_objects s)"
      using nf hd(1,2) hS by (simp add: in_use_def)
    then have "cache_free p s1 = Some s"
      using roundtrip_partial_stay [OF inv [unfolded Cons] hS _ a] by simp
    then show ?thesis using hd(1,2) by simp
  next
    case Nil
    from inv Nil have p0: "partially_slab s = 0" by (simp add: invariant_def lists_wf_def)
    show ?thesis
    proof (cases fs)
      case (Cons S fs')
      note hd = inv_free_head [OF inv [unfolded Cons]]
      from hd(3) obtain sl where hS: "heap s S = Some sl" by auto
      from roundtrip_free_slab [OF inv [unfolded Cons Nil] hS a] hd(1,2)
      show ?thesis by auto
    next
      case fNil: Nil
      from inv fNil have f0: "complete_slab s = 0" by (simp add: invariant_def lists_wf_def)
      obtain x jk where rp: "reply = (x, jk)" by (cases reply)
      have vr: "valid_reply s (x, jk)" using v p0 f0 rp by simp
      from roundtrip_new_slab [OF inv [unfolded fNil Nil] vr a [unfolded rp]] p0 f0 rp
      show ?thesis by auto
    qed
  qed
qed

section \<open>The claims\<close>

text \<open>
  The claims about reachable states are about the states of \<open>reach\<close>: a cache set up on
  an empty store with a valid object size, then used through \<open>cache_alloc\<close>, \<open>cache_free\<close>,
  \<open>cache_shrink\<close> and \<open>cache_release\<close> under the preconditions of the interface.
\<close>

text \<open>
  C1. Claim: every pointer returned by \<open>cache_alloc\<close> is disjoint from every slot that is
  still live. The code does not do this: the slot index is the current \<open>refcnt\<close>, which
  \<open>cache_free\<close> decrements. After \<open>cache_setup(41)\<close>, two allocations return the slots 0 and
  1 of a slab at 4096 (addresses 4120 and 4161); freeing the first and allocating again
  returns 4161 once more, the slot that is still live.
\<close>

theorem C1_alloc_returns_live_slot:
  "do { s \<leftarrow> cache_setup 41 world0;
        (p1, s) \<leftarrow> cache_alloc (4096, junk) s;
        (p2, s) \<leftarrow> cache_alloc (0, junk) s;
        s \<leftarrow> cache_free p1 s;
        (p3, s) \<leftarrow> cache_alloc (0, junk) s;
        Some (p1, p2, p3) } = Some (4120, 4161, 4161)"
  by (simp add: eval_defs)

text \<open>
  C2. Claim: between public calls every slab is on the list matching its occupancy, and a
  free that takes a full slab to \<open>objects_per_slab - 1\<close> moves it to the partial list. The
  code has no such migration: \<open>cache_free\<close> moves a slab only when its count reaches 0.
  With two objects per slab (\<open>cache_setup(2036)\<close>), after two allocations and the release of
  the first object the slab at 4096 holds one object out of two and is still the head of
  \<open>empty_slab\<close>, the list of fully occupied slabs, while \<open>partially_slab\<close> is empty.
\<close>

theorem C2_freed_full_slab_stays_on_full_list:
  "do { s \<leftarrow> cache_setup 2036 world0;
        (p1, s) \<leftarrow> cache_alloc (4096, junk) s;
        (p2, s) \<leftarrow> cache_alloc (0, junk) s;
        s \<leftarrow> cache_free p1 s;
        Some (slab_objects s, map_option refcnt (heap s 4096),
              complete_slab s, partially_slab s, empty_slab s) }
   = Some (2, Some 1, 0, 0, 4096)"
  by (simp add: eval_defs)

text \<open>
  C3. For every outstanding pointer \<open>p\<close> carved from the slab \<open>a\<close>, in every reachable
  state: \<open>calculate_slab_start\<close> maps \<open>p\<close> to \<open>a\<close>; the slab \<open>a\<close> is held and its
  \<open>refcnt\<close> is the number of outstanding allocations carved from it, \<open>p\<close> among them; the
  low \<open>12 + slab_order\<close> bits of \<open>a\<close> are zero; and the offset of \<open>p\<close> in its slab is
  smaller than the slab size \<open>4096 * 2 ^ slab_order\<close>.
\<close>

theorem C3_mask_recovers_slab:
  assumes r: "reach s l" and e: "(p, a) \<in># l"
  shows "calculate_slab_start s p = a
    \<and> (\<exists>sl. heap s a = Some sl \<and> unat (refcnt sl) = size (filter_mset (\<lambda>e. snd e = a) l))
    \<and> a AND (push_bit (slab_order s + 12) 1 - 1) = 0
    \<and> unat (p - a) < 4096 * 2 ^ slab_order s"
proof -
  from r obtain fs ps us where inv: "invariant s l fs ps us" using reach_invariant by blast
  note ff = free_facts [OF inv e]
  from inv have g: "geometry_ok s" and al: "\<forall>a \<in> dom (heap s). base_aligned s a"
    and lv: "live_ok s l" and c: "counted s l"
    by (simp_all add: invariant_def)
  from ff(2) obtain sl where hS: "heap s a = Some sl" by auto
  have d: "a \<in> dom (heap s)" using hS by auto
  have "in_use s a = size (filter_mset (\<lambda>e. snd e = a) l)" using c d by (simp add: counted_def)
  then have cnt: "unat (refcnt sl) = size (filter_mset (\<lambda>e. snd e = a) l)"
    using hS by (simp add: in_use_def)
  have ba: "a AND (push_bit (slab_order s + 12) 1 - 1) = 0"
    using al d by (simp add: base_aligned_def)
  from lv e have "snd (p, a) \<in> dom (heap s)
      \<and> (\<exists>k<unat (slab_objects s). fst (p, a) = slot s (snd (p, a)) k)"
    unfolding live_ok_def by (rule bspec)
  then obtain k where k: "k < unat (slab_objects s)" and p: "p = slot s a k" by auto
  have off: "unat (p - a) < 4096 * 2 ^ slab_order s"
    unfolding p using g k by (rule slot_offset_bound)
  show ?thesis using ff(1) hS cnt ba off by blast
qed

text \<open>
  C3, witness: in the concrete run the pointer 4120 is outstanding, it masks to the slab at
  4096, and that slab counts two objects.
\<close>

theorem C3_mask_recovers_slab_witness:
  "reach ex5 ex_live \<and> (4120, 4096) \<in># ex_live \<and> calculate_slab_start ex5 4120 = 4096
   \<and> (\<exists>sl. heap ex5 4096 = Some sl \<and> unat (refcnt sl) = 2)"
proof -
  have e: "(4120, 4096) \<in># ex_live" by (simp add: ex_live_def)
  have "size (filter_mset (\<lambda>e. snd e = 4096) ex_live) = 2" by (simp add: ex_live_def)
  with C3_mask_recovers_slab [OF reach_ex5 e] reach_ex5 e show ?thesis by auto
qed

text \<open>
  C4. Claim: setup chooses the smallest order in \<open>[0,10]\<close> with
  \<open>4096 * 2 ^ order \<ge> header_size + object_size\<close>, and order 0 exactly when the sum is at
  most 4096. The code takes the number of bits of \<open>(header_size + object_size) / 4096\<close>,
  one more than the smallest order whenever the sum is exactly \<open>4096 * 2 ^ k\<close>: for
  \<open>object_size = 8168\<close> the sum is 8192, which fits order 1, and the code chooses order 2;
  for \<open>object_size = 4072\<close> the sum is 4096, which fits order 0, and the code chooses
  order 1; for \<open>object_size = 4194280\<close> the sum is \<open>4096 * 2 ^ 10\<close>, which fits order 10,
  and the code chooses order 11, outside the orders \<open>alloc_slab\<close> accepts.
\<close>

theorem C4_order_not_least:
  "map_option slab_order (cache_setup 8168 world0) = Some 2
   \<and> (24 :: nat) + 8168 \<le> 4096 * 2 ^ 1
   \<and> map_option slab_order (cache_setup 4072 world0) = Some 1
   \<and> (24 :: nat) + 4072 \<le> 4096 * 2 ^ 0
   \<and> map_option slab_order (cache_setup 4194280 world0) = Some 11
   \<and> (24 :: nat) + 4194280 \<le> 4096 * 2 ^ 10"
  by (simp add: eval_defs)

text \<open>
  C5, counterexample. Claim: setup fails with \<open>ConfigTooLarge\<close> when one object and the
  header do not fit a slab of order 10, and leaves the cache uninitialised. The code has
  no error path (\<open>cache_setup\<close> returns \<open>void\<close>): for \<open>object_size = 4194304\<close>, 4 MiB, it
  initialises the cache with order 11.
\<close>

theorem C5_setup_never_fails_counterexample:
  "cache_setup 4194304 world0
     = Some (world0\<lparr>object_size := 4194304, slab_order := 11, slab_objects := 1\<rparr>)
   \<and> (4096 :: nat) * 2 ^ 10 < 24 + 4194304"
  by (simp add: eval_defs)

text \<open>
  C5, as amended: \<open>cache_setup\<close> has no error path; for every \<open>object_size > 0\<close> it returns
  with the three list heads null and the object size stored, and when
  \<open>header_size + object_size\<close> is below 4 MiB the order it stores is at most 10 and a slab
  holds at least one object.
\<close>

theorem C5_setup_has_no_error_path:
  assumes "0 < unat objsz"
  shows "\<exists>s'. cache_setup objsz s = Some s'
    \<and> complete_slab s' = 0 \<and> partially_slab s' = 0 \<and> empty_slab s' = 0
    \<and> object_size s' = objsz
    \<and> (unat objsz + 24 < 2 ^ 22 \<longrightarrow> slab_order s' \<le> 10 \<and> 0 < unat (slab_objects s'))"
proof -
  have n0: "objsz \<noteq> 0" using assms by auto
  then obtain s' where eq: "cache_setup objsz s = Some s'" using setup_Some by blast
  note f = setup_fields [OF eq]
  have "unat objsz + 24 < 2 ^ 22 \<Longrightarrow> slab_order s' \<le> 10 \<and> 0 < unat (slab_objects s')"
  proof -
    assume "unat objsz + 24 < 2 ^ 22"
    then have "valid_object_size objsz" using assms by (simp add: valid_object_size_def)
    then obtain s'' where "cache_setup objsz s = Some s''" and "geometry_ok s''"
      using setup_geometry by blast
    then show ?thesis using eq by (simp add: geometry_ok_def)
  qed
  with eq f(1-4) show ?thesis by blast
qed

text \<open>
  C5, witness: \<open>object_size = 41\<close>, the size the driver uses.
\<close>

theorem C5_setup_has_no_error_path_witness:
  "0 < unat (41 :: 64 word)
   \<and> (\<exists>s'. cache_setup 41 world0 = Some s' \<and> object_size s' = 41 \<and> slab_order s' \<le> 10)"
proof -
  have a: "0 < unat (41 :: 64 word)" by simp
  have b: "unat (41 :: 64 word) + 24 < 2 ^ 22" by simp
  from C5_setup_has_no_error_path [OF a, of world0] b a show ?thesis by blast
qed

text \<open>
  C6. Claim: when all three lists are empty and the page primitive refuses, \<open>cache_alloc\<close>
  surfaces \<open>OutOfPages\<close> and leaves the cache unchanged. The code does not test the result
  of \<open>alloc_slab\<close>: it stores \<open>refcnt = 1\<close> through the null pointer, which is undefined
  behaviour (\<open>None\<close> in the model).
\<close>

theorem C6_alloc_dereferences_null:
  "do { s \<leftarrow> cache_setup 41 world0; cache_alloc (0, junk) s } = None"
  by (simp add: eval_defs)

text \<open>
  C7. Claim: \<open>cache_alloc\<close> followed by \<open>cache_free\<close> of the pointer returned leaves the three
  list heads as they were when the allocation reused an existing slab, for any resulting
  occupancy. With two objects per slab and one object allocated, the slab at 4096 is the
  head of the partial list; the allocation fills it and moves it to the full list, and
  the release leaves it there: the heads go from \<open>(0, 4096, 0)\<close> to \<open>(0, 0, 4096)\<close>.
\<close>

theorem C7_alloc_free_moves_slab_to_full_list:
  "do { s \<leftarrow> cache_setup 2036 world0;
        (p1, s1) \<leftarrow> cache_alloc (4096, junk) s;
        (p2, s2) \<leftarrow> cache_alloc (0, junk) s1;
        s3 \<leftarrow> cache_free p2 s2;
        Some ((complete_slab s1, partially_slab s1, empty_slab s1),
              (complete_slab s3, partially_slab s3, empty_slab s3)) }
   = Some ((0, 4096, 0), (0, 0, 4096))"
  by (simp add: eval_defs)

text \<open>
  C8. In every reachable state, whatever the occupancy of its slabs, \<open>cache_release\<close>
  returns with the three list heads null and no region held, and the number of regions
  acquired from the page primitive equals the number released to it.
\<close>

theorem C8_release_returns_every_region:
  assumes r: "reach s l"
  shows "\<exists>s'. cache_release s = Some s'
    \<and> complete_slab s' = 0 \<and> partially_slab s' = 0 \<and> empty_slab s' = 0
    \<and> heap s' = Map.empty \<and> acquires s' = releases s'"
proof -
  from r obtain fs ps us where inv: "invariant s l fs ps us" using reach_invariant by blast
  note ri = release_invariant [OF inv]
  from ri(2) have "balanced (s\<lparr>heap := Map.empty,
      releases := releases s + length fs + length ps + length us,
      complete_slab := 0, partially_slab := 0, empty_slab := 0\<rparr>)"
    by (simp add: invariant_def)
  then have "acquires s = releases s + length fs + length ps + length us"
    by (simp add: balanced_def)
  with ri(1) show ?thesis by simp
qed

text \<open>
  C8, witness: the concrete run, whose slab at 4096 still has two objects in use; two
  regions were acquired and \<open>cache_release\<close> releases both.
\<close>

theorem C8_release_returns_every_region_witness:
  "reach ex5 ex_live \<and> in_use ex5 4096 = 2
   \<and> (\<exists>s'. cache_release ex5 = Some s' \<and> heap s' = Map.empty \<and> acquires s' = 2
        \<and> releases s' = 2)"
proof -
  have "acquires ex5 = 2" by (simp add: ex5_val world0_def)
  moreover have "in_use ex5 4096 = 2" by (simp add: ex5_val world0_def in_use_def)
  moreover from C8_release_returns_every_region [OF reach_ex5]
  obtain s' where "cache_release ex5 = Some s'" and "heap s' = Map.empty"
    and "acquires s' = releases s'"
    by blast
  moreover have "\<And>s'. cache_release ex5 = Some s' \<Longrightarrow> acquires s' = acquires ex5"
    using release_invariant(1) reach_invariant [OF reach_ex5] by auto
  ultimately show ?thesis using reach_ex5 by auto
qed

text \<open>
  C9. In every reachable state \<open>cache_shrink\<close> releases exactly the slabs \<open>fs\<close> of the free
  list, once each, and nulls the free-list head; the headers of all other slabs, the
  heads of the partial and the full list and the geometry fields are unchanged; and no
  slab with \<open>refcnt = 0\<close> is held afterwards.
\<close>

theorem C9_shrink_releases_free_list_only:
  assumes r: "reach s l"
  shows "\<exists>fs s'. dll (heap s) (complete_slab s) fs \<and> distinct fs
    \<and> cache_shrink s = Some s'
    \<and> heap s' = heap s |` (- set fs) \<and> releases s' = releases s + length fs
    \<and> acquires s' = acquires s \<and> complete_slab s' = 0
    \<and> partially_slab s' = partially_slab s \<and> empty_slab s' = empty_slab s
    \<and> object_size s' = object_size s \<and> slab_order s' = slab_order s
    \<and> slab_objects s' = slab_objects s
    \<and> (\<forall>a sl. heap s' a = Some sl \<longrightarrow> refcnt sl \<noteq> 0)"
proof -
  from r obtain fs ps us where inv: "invariant s l fs ps us" using reach_invariant by blast
  define s' where "s' = s\<lparr>heap := heap s |` (- set fs), releases := releases s + length fs,
      complete_slab := 0\<rparr>"
  note si = shrink_invariant [OF inv, folded s'_def]
  from inv have df: "dll (heap s) (complete_slab s) fs" and dist: "distinct fs"
    by (simp_all add: invariant_def lists_wf_def)
  from si(2) have occ: "occupancy_ok s' [] ps us" and dm: "dom (heap s') = set ps \<union> set us"
    by (simp_all add: invariant_def lists_wf_def)
  have nz: "\<forall>a sl. heap s' a = Some sl \<longrightarrow> refcnt sl \<noteq> 0"
  proof (intro allI impI)
    fix a sl assume h: "heap s' a = Some sl"
    then have "a \<in> set ps \<union> set us" using dm by auto
    then have "0 < in_use s' a" using occ by (auto simp: occupancy_ok_def)
    then show "refcnt sl \<noteq> 0" using h by (auto simp: in_use_def)
  qed
  show ?thesis
  proof (intro exI [of _ fs] exI [of _ s'] conjI)
    show "dll (heap s) (complete_slab s) fs" by (rule df)
    show "distinct fs" by (rule dist)
    show "cache_shrink s = Some s'" by (rule si(1))
    show "\<forall>a sl. heap s' a = Some sl \<longrightarrow> refcnt sl \<noteq> 0" by (rule nz)
  qed (simp_all add: s'_def)
qed

text \<open>
  C9, witness: in the concrete run the free list is the slab at 8192; \<open>cache_shrink\<close>
  releases it and leaves the slab at 4096, the head of the full list, as it was.
\<close>

theorem C9_shrink_releases_free_list_only_witness:
  "reach ex5 ex_live \<and> dll (heap ex5) (complete_slab ex5) [8192]
   \<and> (\<exists>s'. cache_shrink ex5 = Some s' \<and> heap s' 8192 = None \<and> heap s' 4096 = heap ex5 4096
        \<and> complete_slab s' = 0 \<and> empty_slab s' = 4096 \<and> releases s' = 1)"
proof -
  have d: "dll (heap ex5) (complete_slab ex5) [8192]"
    by (simp add: ex5_val world0_def dll_def)
  from C9_shrink_releases_free_list_only [OF reach_ex5]
  obtain fs s' where f: "dll (heap ex5) (complete_slab ex5) fs"
    and s: "cache_shrink ex5 = Some s'" "heap s' = heap ex5 |` (- set fs)"
      "releases s' = releases ex5 + length fs" "complete_slab s' = 0"
      "empty_slab s' = empty_slab ex5"
    by blast
  from f d have "fs = [8192]" unfolding dll_def by (rule dll_seg_unique)
  with s have "cache_shrink ex5 = Some s' \<and> heap s' 8192 = None \<and> heap s' 4096 = heap ex5 4096
        \<and> complete_slab s' = 0 \<and> empty_slab s' = 4096 \<and> releases s' = 1"
    by (simp add: ex5_val world0_def restrict_map_def)
  with reach_ex5 d show ?thesis by blast
qed

text \<open>
  C10. In every reachable state the three lists are null-terminated doubly-linked chains
  whose first slab has no predecessor and in which every other slab points back to the
  slab before it; no slab occurs twice or in two lists, and the lists hold exactly the
  regions held. Every operation under its preconditions returns (no access outside a held
  region) and leads to a reachable state again; \<open>cache_shrink\<close> and \<open>cache_release\<close>
  terminate, releasing each slab of the free list, and of all three lists, exactly once;
  \<open>cache_setup\<close> leaves three empty lists.
\<close>

theorem C10_lists_stay_well_formed:
  assumes r: "reach s l"
  shows "\<exists>fs ps us.
      dll (heap s) (complete_slab s) fs \<and> dll (heap s) (partially_slab s) ps
    \<and> dll (heap s) (empty_slab s) us \<and> distinct (fs @ ps @ us)
    \<and> dom (heap s) = set (fs @ ps @ us)
    \<and> (\<forall>reply. (partially_slab s = 0 \<and> complete_slab s = 0 \<longrightarrow> valid_reply s reply) \<longrightarrow>
          (\<exists>p s'. cache_alloc reply s = Some (p, s')
             \<and> reach s' (add_mset (p, alloc_source reply s) l)))
    \<and> (\<forall>e \<in># l. \<exists>s'. cache_free (fst e) s = Some s' \<and> reach s' (l - {#e#}))
    \<and> (\<exists>s'. cache_shrink s = Some s' \<and> reach s' l
          \<and> releases s' = releases s + length fs
          \<and> dom (heap s') = dom (heap s) - set fs)
    \<and> (\<exists>s'. cache_release s = Some s' \<and> reach s' {#}
          \<and> releases s' = releases s + length (fs @ ps @ us)
          \<and> dom (heap s') = {})
    \<and> (\<forall>n. n \<noteq> 0 \<longrightarrow>
          (\<exists>s'. cache_setup n s = Some s' \<and> dll (heap s') (complete_slab s') []
             \<and> dll (heap s') (partially_slab s') [] \<and> dll (heap s') (empty_slab s') []))"
proof -
  from r obtain fs ps us where inv: "invariant s l fs ps us" using reach_invariant by blast
  from inv have wf: "lists_wf s fs ps us" by (simp add: invariant_def)
  have su: "\<forall>n. n \<noteq> 0 \<longrightarrow>
          (\<exists>s'. cache_setup n s = Some s' \<and> dll (heap s') (complete_slab s') []
             \<and> dll (heap s') (partially_slab s') [] \<and> dll (heap s') (empty_slab s') [])"
  proof (intro allI impI)
    fix n :: "64 word"
    assume "n \<noteq> 0"
    then obtain s' where eq: "cache_setup n s = Some s'" using setup_Some by blast
    note f = setup_fields [OF eq]
    show "\<exists>s'. cache_setup n s = Some s' \<and> dll (heap s') (complete_slab s') []
        \<and> dll (heap s') (partially_slab s') [] \<and> dll (heap s') (empty_slab s') []"
      using eq f(1-3) by simp
  qed
  have al: "\<forall>reply. (partially_slab s = 0 \<and> complete_slab s = 0 \<longrightarrow> valid_reply s reply) \<longrightarrow>
          (\<exists>p s'. cache_alloc reply s = Some (p, s')
             \<and> reach s' (add_mset (p, alloc_source reply s) l))"
  proof (intro allI impI)
    fix reply
    assume v: "partially_slab s = 0 \<and> complete_slab s = 0 \<longrightarrow> valid_reply s reply"
    from cache_alloc_invariant [OF inv v]
    obtain p s' where a: "cache_alloc reply s = Some (p, s')" by blast
    have "reach s' (add_mset (p, alloc_source reply s) l)" using r v a by (rule reach_alloc)
    with a show "\<exists>p s'. cache_alloc reply s = Some (p, s')
        \<and> reach s' (add_mset (p, alloc_source reply s) l)"
      by blast
  qed
  have fr: "\<forall>e \<in># l. \<exists>s'. cache_free (fst e) s = Some s' \<and> reach s' (l - {#e#})"
  proof
    fix e assume "e \<in># l"
    then have e: "(fst e, snd e) \<in># l" by simp
    from cache_free_invariant [OF inv e]
    obtain s' where f: "cache_free (fst e) s = Some s'" by blast
    have "reach s' (l - {#(fst e, snd e)#})" using r e f by (rule reach_free)
    with f show "\<exists>s'. cache_free (fst e) s = Some s' \<and> reach s' (l - {#e#})" by auto
  qed
  note si = shrink_invariant(1) [OF inv]
  have sh: "\<exists>s'. cache_shrink s = Some s' \<and> reach s' l
          \<and> releases s' = releases s + length fs
          \<and> dom (heap s') = dom (heap s) - set fs"
    using si reach_shrink [OF r si] by auto
  note ri = release_invariant(1) [OF inv]
  have re: "\<exists>s'. cache_release s = Some s' \<and> reach s' {#}
          \<and> releases s' = releases s + length (fs @ ps @ us)
          \<and> dom (heap s') = {}"
    using ri reach_release [OF r ri] by auto
  show ?thesis
    using wf al fr sh re su unfolding lists_wf_def by blast
qed

text \<open>
  C10, witness: the concrete run.
\<close>

theorem C10_lists_stay_well_formed_witness:
  "reach ex5 ex_live
   \<and> (\<exists>fs ps us. dll (heap ex5) (complete_slab ex5) fs \<and> dll (heap ex5) (partially_slab ex5) ps
        \<and> dll (heap ex5) (empty_slab ex5) us \<and> distinct (fs @ ps @ us)
        \<and> dom (heap ex5) = set (fs @ ps @ us)
        \<and> (\<exists>s'. cache_release ex5 = Some s' \<and> reach s' {#}
              \<and> releases s' = releases ex5 + length (fs @ ps @ us) \<and> dom (heap s') = {}))"
  using C10_lists_stay_well_formed [OF reach_ex5] reach_ex5 by blast

end
